theory Spec2Isabelle
  imports Complex_Main "HOL-Library.Log_Nat"
begin

section \<open>Pagination arithmetic (\<open>src/index.ts\<close>)\<close>

text \<open>
  The class \<open>Pagination\<close> of \<open>src/index.ts\<close> holds four static, pure functions on
  values of the type \<open>number\<close>, the IEEE 754 doubles of the language. The model keeps
  what the doubles do to the program: \<open>NaN\<close> and the two infinities are values, and every
  arithmetic operation rounds its exact result to the nearest double. From \<open>2^53\<close> on
  the doubles no longer hold every integer, so \<open>2^53 + 1\<close> is \<open>2^53\<close> again.
  An optional field or argument (\<open>page?: number\<close>) is an \<open>option\<close>, \<open>None\<close>
  for \<open>undefined\<close>, and \<open>number | null\<close> is an \<open>option\<close> with \<open>None\<close> for \<open>null\<close>.
\<close>

subsection \<open>Numbers\<close>

text \<open>
  A number is \<open>NaN\<close>, an infinity, or finite; a finite double is a rational.
  The two zeros of the doubles are the one value \<open>Fin 0\<close>: they differ only under a
  division by zero, and the program never divides by zero (its divisors are 2 and the
  page size, which is \<open>NaN\<close> or at least 1).
\<close>

datatype number = NaN | NegInf | Fin rat | PosInf

text \<open>The integer \<open>k\<close> as a number.\<close>

definition int_num :: "int \<Rightarrow> number" where
  "int_num k = Fin (of_int k)"

text \<open>The nearest integer, the even one of the two when \<open>x\<close> is half-way.\<close>

definition round_half_even :: "rat \<Rightarrow> int" where
  "round_half_even x =
    (let f = \<lfloor>x\<rfloor>; d = x - of_int f
     in if d < 1 / 2 then f else if 1 / 2 < d then f + 1 else if even f then f else f + 1)"

text \<open>For \<open>x > 0\<close>, the exponent \<open>e\<close> with \<open>2^e \<le> x < 2^(e+1)\<close>.\<close>

definition floor_log2 :: "rat \<Rightarrow> int" where
  "floor_log2 x =
    (let (p, q) = quotient_of x; d = bitlen p - bitlen q
     in if 2 powi d \<le> x then d else d - 1)"

text \<open>
  Rounding \<open>a > 0\<close> to 53 significant bits, to the nearest and to even on a tie: the unit
  in the last place is \<open>2^(e - 52)\<close>, and \<open>2^(-1074)\<close> for the subnormal numbers.
\<close>

definition round_magnitude :: "rat \<Rightarrow> rat" where
  "round_magnitude a =
    (let q = max (floor_log2 a - 52) (- 1074)
     in of_int (round_half_even (a / 2 powi q)) * 2 powi q)"

text \<open>The double nearest to \<open>x\<close>; a magnitude that rounds to \<open>2^1024\<close> overflows.\<close>

definition round_double :: "rat \<Rightarrow> number" where
  "round_double x =
    (if x = 0 then Fin 0
     else
      (let r = round_magnitude \<bar>x\<bar>
       in if 2 ^ 1024 \<le> r then (if 0 < x then PosInf else NegInf)
          else Fin (if 0 < x then r else - r)))"

subsection \<open>Operators of the language\<close>

definition negate :: "number \<Rightarrow> number" where
  "negate v = (case v of NaN \<Rightarrow> NaN | NegInf \<Rightarrow> PosInf | Fin r \<Rightarrow> Fin (- r) | PosInf \<Rightarrow> NegInf)"

text \<open>\<open>a + b\<close> and \<open>a - b\<close>.\<close>

fun num_add :: "number \<Rightarrow> number \<Rightarrow> number" where
  "num_add NaN b = NaN"
| "num_add a NaN = NaN"
| "num_add (Fin x) (Fin y) = round_double (x + y)"
| "num_add PosInf NegInf = NaN"
| "num_add NegInf PosInf = NaN"
| "num_add (Fin x) b = b"
| "num_add a b = a"

definition num_sub :: "number \<Rightarrow> number \<Rightarrow> number" where
  "num_sub a b = num_add a (negate b)"

text \<open>\<open>a * b\<close>: an infinity times zero is \<open>NaN\<close>.\<close>

fun num_mul :: "number \<Rightarrow> number \<Rightarrow> number" where
  "num_mul NaN b = NaN"
| "num_mul a NaN = NaN"
| "num_mul (Fin x) (Fin y) = round_double (x * y)"
| "num_mul (Fin x) b = (if x = 0 then NaN else if 0 < x then b else negate b)"
| "num_mul a (Fin y) = (if y = 0 then NaN else if 0 < y then a else negate a)"
| "num_mul PosInf b = b"
| "num_mul NegInf b = negate b"

text \<open>
  \<open>a / b\<close>. A division by zero is taken as a division by \<open>+0\<close>; the program does not
  reach it.
\<close>

fun num_div :: "number \<Rightarrow> number \<Rightarrow> number" where
  "num_div NaN b = NaN"
| "num_div a NaN = NaN"
| "num_div (Fin x) (Fin y) =
    (if y = 0 then (if x = 0 then NaN else if 0 < x then PosInf else NegInf)
     else round_double (x / y))"
| "num_div (Fin x) b = Fin 0"
| "num_div a (Fin y) = (if 0 \<le> y then a else negate a)"
| "num_div a b = NaN"

text \<open>\<open>Math.ceil\<close> and \<open>Math.floor\<close>: the result is an integer no larger in magnitude
  than a neighbour of the argument, hence a double.\<close>

definition Math_ceil :: "number \<Rightarrow> number" where
  "Math_ceil v = (case v of Fin r \<Rightarrow> Fin (of_int \<lceil>r\<rceil>) | _ \<Rightarrow> v)"

definition Math_floor :: "number \<Rightarrow> number" where
  "Math_floor v = (case v of Fin r \<Rightarrow> Fin (of_int \<lfloor>r\<rfloor>) | _ \<Rightarrow> v)"

text \<open>
  The comparisons \<open>a < b\<close> and \<open>a <= b\<close> (\<open>b > a\<close> and \<open>b >= a\<close> are these with the
  operands exchanged) and the equality \<open>a === b\<close>: all false as soon as one operand is
  \<open>NaN\<close>.
\<close>

fun num_lt :: "number \<Rightarrow> number \<Rightarrow> bool" where
  "num_lt NaN b = False"
| "num_lt a NaN = False"
| "num_lt a NegInf = False"
| "num_lt NegInf b = True"
| "num_lt PosInf b = False"
| "num_lt (Fin x) PosInf = True"
| "num_lt (Fin x) (Fin y) = (x < y)"

definition num_le :: "number \<Rightarrow> number \<Rightarrow> bool" where
  "num_le a b = (a \<noteq> NaN \<and> b \<noteq> NaN \<and> \<not> num_lt b a)"

definition num_eq :: "number \<Rightarrow> number \<Rightarrow> bool" where
  "num_eq a b = (a \<noteq> NaN \<and> a = b)"

text \<open>\<open>Math.max\<close> and \<open>Math.min\<close>: \<open>NaN\<close> as soon as one argument is.\<close>

definition Math_max :: "number \<Rightarrow> number \<Rightarrow> number" where
  "Math_max a b = (if a = NaN \<or> b = NaN then NaN else if num_lt a b then b else a)"

definition Math_min :: "number \<Rightarrow> number \<Rightarrow> number" where
  "Math_min a b = (if a = NaN \<or> b = NaN then NaN else if num_lt b a then b else a)"

text \<open>\<open>a ?? d\<close>: the left operand unless it is \<open>undefined\<close> (or \<open>null\<close>).\<close>

definition nullish :: "'a option \<Rightarrow> 'a \<Rightarrow> 'a" where
  "nullish a d = (case a of None \<Rightarrow> d | Some v \<Rightarrow> v)"

text \<open>\<open>a || d\<close> on numbers: \<open>d\<close> when \<open>a\<close> is falsy, that is \<open>NaN\<close> or zero.\<close>

definition logical_or :: "number \<Rightarrow> number \<Rightarrow> number" where
  "logical_or a d = (if a = NaN \<or> a = Fin 0 then d else a)"

text \<open>
  \<open>Number(v)\<close> for \<open>v: string | null\<close>, as \<open>URLSearchParams.get\<close> returns it:
  \<open>Number(null)\<close> is 0, and a string is converted by the language's \<open>StringToNumber\<close>,
  which the model takes as the parameter \<open>toNumber\<close>.
\<close>

definition Number :: "(string \<Rightarrow> number) \<Rightarrow> string option \<Rightarrow> number" where
  "Number toNumber v = (case v of None \<Rightarrow> Fin 0 | Some s \<Rightarrow> toNumber s)"

subsection \<open>Arrays\<close>

text \<open>
  An array is a list. Its length is below \<open>2^32\<close>: \<open>push\<close> on an array of
  \<open>2^32 - 1\<close> elements throws \<open>RangeError\<close> when it sets the new length, and so does
  the creation of an array of \<open>2^32\<close> elements or more. An exception is the left
  summand of the result.
\<close>

datatype error = RangeError

definition push :: "'a list \<Rightarrow> 'a \<Rightarrow> error + 'a list" where
  "push xs x = (if int (length xs) < 2 ^ 32 - 1 then Inr (xs @ [x]) else Inl RangeError)"

text \<open>The next statement runs on the value of the last one unless that threw.\<close>

definition and_then :: "error + 'a \<Rightarrow> ('a \<Rightarrow> error + 'b) \<Rightarrow> error + 'b" where
  "and_then r f = (case r of Inl e \<Rightarrow> Inl e | Inr v \<Rightarrow> f v)"

text \<open>
  The length that \<open>Array.from\<close> reads from \<open>{ length: n }\<close>: \<open>n\<close> truncated to an
  integer and clamped to \<open>[0, 2^53 - 1]\<close>, 0 for \<open>NaN\<close>.
\<close>

definition ToLength :: "number \<Rightarrow> int" where
  "ToLength n =
    (case n of
       NaN \<Rightarrow> 0
     | NegInf \<Rightarrow> 0
     | PosInf \<Rightarrow> 2 ^ 53 - 1
     | Fin r \<Rightarrow> if r \<le> 0 then 0 else min \<lfloor>r\<rfloor> (2 ^ 53 - 1))"

text \<open>
  \<open>Array.from({ length: n }, (_, i) => f(i))\<close>: the indices \<open>0, ..., len - 1\<close> mapped by
  \<open>f\<close>, in a new array of that length.
\<close>

definition Array_from :: "number \<Rightarrow> (number \<Rightarrow> 'a) \<Rightarrow> error + 'a list" where
  "Array_from n f =
    (let len = ToLength n
     in if 2 ^ 32 \<le> len then Inl RangeError
        else Inr (map (\<lambda>i. f (Fin (of_nat i))) [0..<nat len]))"

subsection \<open>The interfaces\<close>

text \<open>The object \<open>{ page: number; limit: number }\<close> that \<open>parseSearchParams\<close> returns.\<close>

record PageLimit =
  page :: number
  limit :: number

record PaginationParams =
  page :: "number option"
  limit :: "number option"
  totalItems :: number

text \<open>The object \<open>items: { start, end }\<close>; \<open>end\<close> is a keyword here, hence \<open>end'\<close>.\<close>

record ItemRange =
  start :: number
  end' :: number

record PaginationResult =
  currentPage :: number
  totalPages :: number
  pageSize :: number
  totalItems :: number
  hasNextPage :: bool
  hasPreviousPage :: bool
  nextPage :: "number option"
  previousPage :: "number option"
  offset :: number
  items :: ItemRange

text \<open>An element of the array \<open>(number | string)[]\<close> of \<open>getPageNumbers\<close>.\<close>

datatype page_entry = Num number | Str string

text \<open>An element of the array \<open>Array<{ property: string; content: string }>\<close>.\<close>

record MetaTag =
  property :: string
  content :: string

subsection \<open>The constants of the class\<close>

definition DEFAULT_PAGE :: number where
  "DEFAULT_PAGE = Fin 1"

definition DEFAULT_LIMIT :: number where
  "DEFAULT_LIMIT = Fin 10"

definition MAX_LIMIT :: number where
  "MAX_LIMIT = Fin 100"

subsection \<open>\<open>Pagination.calculate\<close>\<close>

definition calculate :: "PaginationParams \<Rightarrow> PaginationResult" where
  "calculate params =
    (let page = Math_max (nullish (page params) DEFAULT_PAGE) (Fin 1);
         limit = Math_min (Math_max (nullish (limit params) DEFAULT_LIMIT) (Fin 1)) MAX_LIMIT;
         totalItems = Math_max (PaginationParams.totalItems params) (Fin 0);
         totalPages = Math_ceil (num_div totalItems limit);
         currentPage = Math_min page (Math_max totalPages (Fin 1));
         offset = num_mul (num_sub currentPage (Fin 1)) limit;
         hasNextPage = num_lt currentPage totalPages;
         hasPreviousPage = num_lt (Fin 1) currentPage
     in \<lparr> currentPage = currentPage,
          totalPages = totalPages,
          pageSize = limit,
          totalItems = totalItems,
          hasNextPage = hasNextPage,
          hasPreviousPage = hasPreviousPage,
          nextPage = (if hasNextPage then Some (num_add currentPage (Fin 1)) else None),
          previousPage = (if hasPreviousPage then Some (num_sub currentPage (Fin 1)) else None),
          offset = offset,
          items = \<lparr> start = (if num_eq totalItems (Fin 0) then Fin 0 else num_add offset (Fin 1)),
                    end' = Math_min (num_add offset limit) totalItems \<rparr> \<rparr>)"

subsection \<open>\<open>Pagination.getPageNumbers\<close>\<close>

text \<open>
  The loop \<open>for (let i = start; i <= end; i++) pages.push(i)\<close>. It ends: each turn
  makes the array longer, and \<open>push\<close> throws on a full array. That is how it ends when
  \<open>i\<close> has reached \<open>2^53\<close>, where \<open>i + 1\<close> rounds back to \<open>i\<close>.
\<close>

function push_range :: "number \<Rightarrow> number \<Rightarrow> page_entry list \<Rightarrow> error + page_entry list" where
  "push_range i stop pages =
    (if num_le i stop
     then (case push pages (Num i) of
             Inl e \<Rightarrow> Inl e
           | Inr pages' \<Rightarrow> push_range (num_add i (Fin 1)) stop pages')
     else Inr pages)"
  by pat_completeness auto
termination
  by (relation "measure (\<lambda>(i, stop, pages). nat (2 ^ 32 - int (length pages)))")
    (auto simp add: push_def split: if_splits)

declare push_range.simps [simp del]

text \<open>
  Lines 91 and 98 to 111: the window \<open>(start, end)\<close> of the visible pages, after the
  adjustment near the start and then the one near the end.
\<close>

definition visible_window :: "number \<Rightarrow> number \<Rightarrow> number \<Rightarrow> number \<times> number" where
  "visible_window = (\<lambda>currentPage totalPages maxVisible.
    (let halfVisible = Math_floor (num_div maxVisible (Fin 2));
         start = Math_max (num_sub currentPage halfVisible) (Fin 2);
         end' = Math_min (num_add currentPage halfVisible) (num_sub totalPages (Fin 1));
         (start, end') =
           (if num_le start (Fin 2)
            then (Fin 2, Math_min maxVisible (num_sub totalPages (Fin 1))) else (start, end'));
         (start, end') =
           (if num_le (num_sub totalPages (Fin 1)) end'
            then (Math_max (Fin 2) (num_add (num_sub totalPages maxVisible) (Fin 1)),
                  num_sub totalPages (Fin 1))
            else (start, end'))
     in (start, end')))"

text \<open>
  The third argument is optional (\<open>maxVisible: number = 5\<close>): \<open>None\<close> when the caller
  leaves it out. The array \<open>pages\<close> is rebound at each \<open>push\<close>.
\<close>

definition getPageNumbers :: "number \<Rightarrow> number \<Rightarrow> number option \<Rightarrow> error + page_entry list" where
  "getPageNumbers = (\<lambda>currentPage totalPages maxVisible_arg.
    (let maxVisible = nullish maxVisible_arg (Fin 5) in
     if num_le totalPages maxVisible
     then Array_from totalPages (\<lambda>i. Num (num_add i (Fin 1)))
     else
      (let pages = [];
           (start, end') = visible_window currentPage totalPages maxVisible
       in and_then (push pages (Num (Fin 1))) (\<lambda>pages.
          and_then (if num_lt (Fin 2) start then push pages (Str ''...'') else Inr pages) (\<lambda>pages.
          and_then (push_range start end' pages) (\<lambda>pages.
          and_then (if num_lt end' (num_sub totalPages (Fin 1))
                    then push pages (Str ''...'') else Inr pages) (\<lambda>pages.
          (if num_lt (Fin 1) totalPages then push pages (Num totalPages) else Inr pages))))))))"

subsection \<open>\<open>Pagination.parseSearchParams\<close>\<close>

text \<open>
  \<open>searchParams\<close> is the query as a map from a name to its (first) value, so that
  \<open>searchParams.get(name)\<close> is the lookup and \<open>None\<close> is \<open>null\<close>.
\<close>

definition parseSearchParams :: "(string \<Rightarrow> number) \<Rightarrow> (string \<rightharpoonup> string) \<Rightarrow> PageLimit" where
  "parseSearchParams toNumber searchParams =
    (let page =
           Math_max (logical_or (Number toNumber (searchParams ''page'')) DEFAULT_PAGE) (Fin 1);
         limit =
           Math_min
             (Math_max (logical_or (Number toNumber (searchParams ''limit'')) DEFAULT_LIMIT)
                (Fin 1))
             MAX_LIMIT
     in \<lparr> PageLimit.page = page, PageLimit.limit = limit \<rparr>)"

subsection \<open>\<open>Pagination.generateMetaTags\<close>\<close>

text \<open>
  A template literal \<open>`${v}`\<close> prints \<open>null\<close> as \<open>null\<close>, \<open>NaN\<close> and the infinities by
  their names and an integer below \<open>10^21\<close> in magnitude by its decimal digits. The
  digits of any other number (a fraction, or \<open>10^21\<close> and above) are those of the
  language's number-to-string conversion, which the model takes as the parameter
  \<open>toDigits\<close>.
\<close>

fun digits_of_nat :: "nat \<Rightarrow> string" where
  "digits_of_nat n =
    (if n < 10 then [''0123456789'' ! n]
     else digits_of_nat (n div 10) @ [''0123456789'' ! (n mod 10)])"

declare digits_of_nat.simps [simp del]

definition Number_toString :: "(rat \<Rightarrow> string) \<Rightarrow> number \<Rightarrow> string" where
  "Number_toString toDigits v =
    (case v of
       NaN \<Rightarrow> ''NaN''
     | NegInf \<Rightarrow> ''-Infinity''
     | PosInf \<Rightarrow> ''Infinity''
     | Fin r \<Rightarrow>
         if r = of_int \<lfloor>r\<rfloor> \<and> \<bar>r\<bar> < 10 ^ 21
         then (if r < 0 then ''-'' @ digits_of_nat (nat (- \<lfloor>r\<rfloor>)) else digits_of_nat (nat \<lfloor>r\<rfloor>))
         else toDigits r)"

definition template_value :: "(rat \<Rightarrow> string) \<Rightarrow> number option \<Rightarrow> string" where
  "template_value toDigits v =
    (case v of None \<Rightarrow> ''null'' | Some n \<Rightarrow> Number_toString toDigits n)"

definition generateMetaTags :: "(rat \<Rightarrow> string) \<Rightarrow> string \<Rightarrow> PaginationResult \<Rightarrow> MetaTag list" where
  "generateMetaTags toDigits baseUrl pagination =
    (let tags = [];
         tags =
           (if hasPreviousPage pagination
            then tags @ [\<lparr> property = ''prev'',
                            content = baseUrl @ ''?page=''
                              @ template_value toDigits (previousPage pagination) \<rparr>]
            else tags);
         tags =
           (if hasNextPage pagination
            then tags @ [\<lparr> property = ''next'',
                            content = baseUrl @ ''?page=''
                              @ template_value toDigits (nextPage pagination) \<rparr>]
            else tags)
     in tags)"

subsection \<open>The conversion of a string to a number\<close>

text \<open>
  \<open>StringToNumber\<close> is the conversion that \<open>Number\<close> applies to a string, following the
  grammar \<open>StringNumericLiteral\<close> of the language: white space around the literal is
  dropped, the empty string is 0, a literal is a signed decimal literal (\<open>Infinity\<close>, or
  digits with an optional fraction and exponent) or an unsigned binary, octal or
  hexadecimal integer, and anything else is \<open>NaN\<close>. The value of the literal is rounded
  to a double. It covers the strings of ASCII characters. The theorems below hold for
  any conversion; this one instantiates them.
\<close>

definition isStrWhiteSpaceChar :: "char \<Rightarrow> bool" where
  "isStrWhiteSpaceChar c = (c \<in> set [CHR 0x09, CHR 0x0A, CHR 0x0B, CHR 0x0C, CHR 0x0D, CHR 0x20])"

definition trim :: "string \<Rightarrow> string" where
  "trim s = rev (dropWhile isStrWhiteSpaceChar (rev (dropWhile isStrWhiteSpaceChar s)))"

text \<open>The value of the digit \<open>c\<close> in the given base, \<open>None\<close> when it is not one.\<close>

definition digit_of :: "nat \<Rightarrow> char \<Rightarrow> nat option" where
  "digit_of base c =
    (let n = (of_char c :: nat);
         d = (if 48 \<le> n \<and> n \<le> 57 then Some (n - 48)
              else if 97 \<le> n \<and> n \<le> 102 then Some (n - 87)
              else if 65 \<le> n \<and> n \<le> 70 then Some (n - 55)
              else None)
     in case d of None \<Rightarrow> None | Some v \<Rightarrow> if v < base then Some v else None)"

fun digits_value :: "nat \<Rightarrow> nat \<Rightarrow> string \<Rightarrow> nat option" where
  "digits_value base acc [] = Some acc"
| "digits_value base acc (c # cs) =
    (case digit_of base c of
       None \<Rightarrow> None
     | Some d \<Rightarrow> digits_value base (acc * base + d) cs)"

text \<open>One digit at least.\<close>

definition Digits :: "nat \<Rightarrow> string \<Rightarrow> nat option" where
  "Digits base s = (if s = [] then None else digits_value base 0 s)"

definition SignedInteger :: "string \<Rightarrow> int option" where
  "SignedInteger s =
    (case s of
       [] \<Rightarrow> None
     | c # cs \<Rightarrow>
         if c = CHR ''+'' then map_option int (Digits 10 cs)
         else if c = CHR ''-'' then map_option (\<lambda>n. - int n) (Digits 10 cs)
         else map_option int (Digits 10 s))"

definition StrUnsignedDecimalLiteral :: "string \<Rightarrow> number" where
  "StrUnsignedDecimalLiteral s =
    (if s = ''Infinity'' then PosInf
     else
      (let isExp = (\<lambda>c. c = CHR ''e'' \<or> c = CHR ''E'');
           mantissa = takeWhile (\<lambda>c. \<not> isExp c) s;
           exponentPart = dropWhile (\<lambda>c. \<not> isExp c) s;
           exponent = (if exponentPart = [] then Some 0 else SignedInteger (tl exponentPart));
           intDigits = takeWhile (\<lambda>c. c \<noteq> CHR ''.'') mantissa;
           dotPart = dropWhile (\<lambda>c. c \<noteq> CHR ''.'') mantissa;
           fracDigits = (if dotPart = [] then [] else tl dotPart)
       in case (Digits 10 (intDigits @ fracDigits), exponent) of
            (Some m, Some e) \<Rightarrow>
              (let k = e - int (length fracDigits)
               in if 0 \<le> k then round_double (of_nat m * 10 ^ nat k)
                  else round_double (of_nat m / 10 ^ nat (- k)))
          | _ \<Rightarrow> NaN))"

definition StrDecimalLiteral :: "string \<Rightarrow> number" where
  "StrDecimalLiteral s =
    (case s of
       [] \<Rightarrow> NaN
     | c # cs \<Rightarrow>
         if c = CHR ''+'' then StrUnsignedDecimalLiteral cs
         else if c = CHR ''-'' then negate (StrUnsignedDecimalLiteral cs)
         else StrUnsignedDecimalLiteral s)"

definition NonDecimalIntegerLiteral :: "nat \<Rightarrow> string \<Rightarrow> number" where
  "NonDecimalIntegerLiteral base ds =
    (case Digits base ds of None \<Rightarrow> NaN | Some n \<Rightarrow> round_double (of_nat n))"

definition StrNumericLiteral :: "string \<Rightarrow> number" where
  "StrNumericLiteral s =
    (case s of
       c0 # c1 # ds \<Rightarrow>
         if c0 = CHR ''0'' \<and> (c1 = CHR ''b'' \<or> c1 = CHR ''B'') then NonDecimalIntegerLiteral 2 ds
         else if c0 = CHR ''0'' \<and> (c1 = CHR ''o'' \<or> c1 = CHR ''O'') then NonDecimalIntegerLiteral 8 ds
         else if c0 = CHR ''0'' \<and> (c1 = CHR ''x'' \<or> c1 = CHR ''X'') then NonDecimalIntegerLiteral 16 ds
         else StrDecimalLiteral s
     | _ \<Rightarrow> StrDecimalLiteral s)"

definition StringToNumber :: "string \<Rightarrow> number" where
  "StringToNumber s = (let t = trim s in if t = [] then Fin 0 else StrNumericLiteral t)"

section \<open>Exact integer arithmetic\<close>

text \<open>
  What the specification says of integers is stated with these: an input of
  \<open>calculate\<close> made of integers, and the page numbers of section 4.2 of the
  specification, computed on the integers.
\<close>

definition int_params :: "int option \<Rightarrow> int option \<Rightarrow> int \<Rightarrow> PaginationParams" where
  "int_params p l t =
    \<lparr> page = map_option int_num p, limit = map_option int_num l, totalItems = int_num t \<rparr>"

text \<open>The page size for a requested limit: 10 by default, clamped to \<open>[1, 100]\<close>.\<close>

definition clamped_limit :: "int option \<Rightarrow> int" where
  "clamped_limit l = min (max (nullish l 10) 1) 100"

text \<open>The number of pages and the current page, in exact arithmetic.\<close>

definition exact_totalPages :: "int option \<Rightarrow> int \<Rightarrow> int" where
  "exact_totalPages l t = \<lceil>rat_of_int (max t 0) / rat_of_int (clamped_limit l)\<rceil>"

definition exact_currentPage :: "int option \<Rightarrow> int option \<Rightarrow> int \<Rightarrow> int" where
  "exact_currentPage p l t = min (max (nullish p 1) 1) (max (exact_totalPages l t) 1)"

text \<open>
  The specification gives \<open>pageNumbers\<close> as an algorithm of its own (section 4.2); this is
  that algorithm, written from its sentences, to be compared with \<open>getPageNumbers\<close>:
  the full list \<open>1..totalPages\<close> when \<open>totalPages \<le> maxVisible\<close>; otherwise page 1, the
  initial window around the current page, the correction near the start and then the one
  near the end, an ellipsis iff \<open>start > 2\<close>, every integer of \<open>[start, end]\<close>, an
  ellipsis iff \<open>end < totalPages - 1\<close>, and \<open>totalPages\<close> iff \<open>totalPages > 1\<close>.
\<close>

definition spec_ellipsis :: page_entry where
  "spec_ellipsis = Str ''...''"

definition spec_page :: "int \<Rightarrow> page_entry" where
  "spec_page n = Num (int_num n)"

definition spec_window :: "int \<Rightarrow> int \<Rightarrow> int \<Rightarrow> int \<times> int" where
  "spec_window cur tot maxVis =
    (let half = maxVis div 2;
         initial = (max (cur - half) 2, min (cur + half) (tot - 1));
         nearStart = (if fst initial \<le> 2 then (2, min maxVis (tot - 1)) else initial);
         nearEnd = (if snd nearStart \<ge> tot - 1
                    then (max 2 (tot - maxVis + 1), tot - 1) else nearStart)
     in nearEnd)"

definition spec_pageNumbers :: "int \<Rightarrow> int \<Rightarrow> int \<Rightarrow> page_entry list" where
  "spec_pageNumbers cur tot maxVis =
    (if tot \<le> maxVis then map spec_page [1..tot]
     else
      (let (s, e) = spec_window cur tot maxVis
       in [spec_page 1]
          @ (if s > 2 then [spec_ellipsis] else [])
          @ map spec_page [s..e]
          @ (if e < tot - 1 then [spec_ellipsis] else [])
          @ (if tot > 1 then [spec_page tot] else [])))"

text \<open>The numeric entries of a sequence of page numbers, in their order.\<close>

fun numbers_of :: "page_entry list \<Rightarrow> number list" where
  "numbers_of [] = []"
| "numbers_of (Num n # es) = n # numbers_of es"
| "numbers_of (Str s # es) = numbers_of es"

section \<open>Rounding to a double\<close>

lemma bitlen_powi:
  assumes "0 < p"
  shows "(2::rat) powi (bitlen p - 1) \<le> of_int p \<and> of_int p < (2::rat) powi (bitlen p)"
proof -
  from bitlen_bounds [OF assms]
  have lo: "2 ^ nat (bitlen p - 1) \<le> p" and hi: "p < 2 ^ nat (bitlen p)" by simp_all
  have pos: "1 \<le> bitlen p"
    using assms bitlen_eq_zero_iff [of p] bitlen_nonneg [of p] by linarith
  have "(2::rat) powi (bitlen p - 1) = of_int (2 ^ nat (bitlen p - 1))"
    using pos by (simp add: power_int_def)
  also have "\<dots> \<le> of_int p"
    using lo by (simp only: of_int_le_iff)
  finally have a: "(2::rat) powi (bitlen p - 1) \<le> of_int p" .
  have "(of_int p :: rat) < of_int (2 ^ nat (bitlen p))"
    using hi by (simp only: of_int_less_iff)
  also have "\<dots> = (2::rat) powi (bitlen p)"
    using pos by (simp add: power_int_def)
  finally show ?thesis using a by simp
qed

lemma floor_log2_bounds:
  assumes "0 < x"
  shows "2 powi (floor_log2 x) \<le> x \<and> x < 2 powi (floor_log2 x + 1)"
proof -
  obtain p q where pq: "quotient_of x = (p, q)" by (cases "quotient_of x")
  then have q: "0 < q" and x: "x = of_int p / of_int q"
    by (simp_all add: quotient_of_denom_pos quotient_of_div)
  from assms x q have p: "0 < p"
    by (simp add: zero_less_divide_iff)
  let ?d = "bitlen p - bitlen q"
  have e: "floor_log2 x = (if 2 powi ?d \<le> x then ?d else ?d - 1)"
    by (simp add: floor_log2_def pq)
  from bitlen_powi [OF p] bitlen_powi [OF q]
  have bp: "(2::rat) powi (bitlen p - 1) \<le> of_int p" "of_int p < (2::rat) powi (bitlen p)"
    and bq: "(2::rat) powi (bitlen q - 1) \<le> of_int q" "of_int q < (2::rat) powi (bitlen q)"
    by simp_all
  have qpos: "(0::rat) < of_int q" using q by simp
  have upper: "x < 2 powi (?d + 1)"
  proof -
    have "of_int p < (2::rat) powi (?d + 1) * 2 powi (bitlen q - 1)"
      using bp(2) by (simp flip: power_int_add)
    also have "\<dots> \<le> 2 powi (?d + 1) * of_int q"
      using bq(1) by (intro mult_left_mono) simp_all
    finally show ?thesis
      using qpos by (simp add: x pos_divide_less_eq)
  qed
  have lower: "2 powi (?d - 1) \<le> x"
  proof -
    have "(2::rat) powi (?d - 1) * of_int q \<le> 2 powi (?d - 1) * 2 powi (bitlen q)"
      using bq(2) by (intro mult_left_mono) simp_all
    also have "\<dots> = 2 powi (bitlen p - 1)"
      by (simp flip: power_int_add)
    also have "\<dots> \<le> of_int p" by (rule bp(1))
    finally show ?thesis
      using qpos by (simp add: x pos_le_divide_eq)
  qed
  show ?thesis
  proof (cases "2 powi ?d \<le> x")
    case True
    with e upper show ?thesis by simp
  next
    case False
    with e lower show ?thesis by simp
  qed
qed

lemma round_half_even_of_int: "round_half_even (of_int k) = k"
  by (simp add: round_half_even_def)

lemma round_half_even_error: "\<bar>of_int (round_half_even x) - x\<bar> \<le> 1 / 2"
proof -
  have "of_int \<lfloor>x\<rfloor> \<le> x" and "x < of_int \<lfloor>x\<rfloor> + 1"
    by linarith+
  then show ?thesis
    by (auto simp add: round_half_even_def Let_def)
qed

lemma round_half_even_ge:
  assumes "of_int m \<le> x"
  shows "m \<le> round_half_even x"
proof -
  from assms have "m \<le> \<lfloor>x\<rfloor>" by (simp add: le_floor_iff)
  then show ?thesis
    by (auto simp add: round_half_even_def Let_def)
qed

lemma two_powi_le_imp_le:
  assumes "(2::rat) powi m \<le> 2 powi n"
  shows "m \<le> n"
proof (rule ccontr)
  assume "\<not> m \<le> n"
  then have "n < m" by simp
  then have "(2::rat) powi n < 2 powi m"
    by (intro power_int_strict_increasing) simp_all
  with assms show False by simp
qed

lemma two_powi_less_imp_less:
  assumes "(2::rat) powi m < 2 powi n"
  shows "m < n"
proof (rule ccontr)
  assume "\<not> m < n"
  then have "n \<le> m" by simp
  then have "(2::rat) powi n \<le> 2 powi m"
    by (intro power_int_increasing) simp_all
  with assms show False by simp
qed

text \<open>A multiple \<open>k / 2^d\<close> with \<open>k \<le> 2^53\<close> is a double: rounding keeps it.\<close>

lemma round_magnitude_exact:
  assumes k: "0 < k" "k \<le> 2 ^ 53" and d: "d \<le> 1000"
  shows "round_magnitude (of_int k / 2 ^ d) = of_int k / 2 ^ d"
proof -
  let ?a = "of_int k / 2 ^ d :: rat"
  let ?e = "floor_log2 ?a"
  let ?q = "max (?e - 52) (- 1074)"
  have apos: "0 < ?a" using k by simp
  have a_powi: "?a = of_int k * 2 powi (- int d)"
    by (simp add: power_int_minus field_simps)
  have "?a \<le> 2 ^ 53 / 2 ^ d"
    using k(2) by (simp add: divide_right_mono)
  also have "\<dots> = (2::rat) powi (53 - int d)"
    by (simp add: power_int_diff)
  finally have a_le: "?a \<le> 2 powi (53 - int d)" .
  from floor_log2_bounds [OF apos] have lo: "2 powi ?e \<le> ?a" by simp
  with a_le have "(2::rat) powi ?e \<le> 2 powi (53 - int d)" by simp
  then have e_le: "?e \<le> 53 - int d" by (rule two_powi_le_imp_le)
  have q_le: "?q \<le> 1 - int d" using e_le d by simp
  have "of_int (round_half_even (?a / 2 powi ?q)) * 2 powi ?q = ?a"
  proof (cases "?q \<le> - int d")
    case True
    then have "?a / 2 powi ?q = of_int k * 2 powi (- int d - ?q)"
      unfolding a_powi by (simp add: power_int_diff)
    also have "\<dots> = of_int (k * 2 ^ nat (- int d - ?q))"
      using True by (simp add: power_int_def)
    finally have int: "?a / 2 powi ?q = of_int (k * 2 ^ nat (- int d - ?q))" .
    have "of_int (round_half_even (?a / 2 powi ?q)) = ?a / 2 powi ?q"
      unfolding int by (simp only: round_half_even_of_int)
    then show ?thesis by simp
  next
    case False
    with q_le have q_eq: "?q = 1 - int d" by linarith
    with e_le d have e_eq: "?e = 53 - int d" by linarith
    from lo a_le have a_eq: "?a = 2 powi (53 - int d)"
      unfolding e_eq by simp
    have "?a / 2 powi ?q = 2 powi (53 - int d) / 2 powi (1 - int d)"
      using a_eq q_eq by simp
    also have "\<dots> = (2::rat) powi 52"
      by (simp flip: power_int_diff)
    also have "\<dots> = of_int (2 ^ 52)" by simp
    finally have int: "?a / 2 powi ?q = of_int (2 ^ 52)" .
    have "of_int (round_half_even (?a / 2 powi ?q)) = ?a / 2 powi ?q"
      unfolding int by (simp only: round_half_even_of_int)
    then show ?thesis by simp
  qed
  then show ?thesis
    by (simp add: round_magnitude_def Let_def)
qed

text \<open>From \<open>2^53\<close> on, rounding stays at \<open>2^53\<close> or above.\<close>

lemma round_magnitude_large:
  assumes "2 ^ 53 \<le> a"
  shows "2 ^ 53 \<le> round_magnitude a"
proof -
  let ?e = "floor_log2 a"
  have apos: "0 < a"
    using assms by (rule less_le_trans [rotated]) simp
  from floor_log2_bounds [OF apos]
  have lo: "2 powi ?e \<le> a" and hi: "a < 2 powi (?e + 1)" by simp_all
  have "(2::rat) powi 53 < 2 powi (?e + 1)"
    using assms hi by simp
  then have "53 < ?e + 1" by (rule two_powi_less_imp_less)
  then have e: "53 \<le> ?e" by simp
  then have q: "max (?e - 52) (- 1074) = ?e - 52" by simp
  have "(2::rat) powi 52 = 2 powi ?e / 2 powi (?e - 52)"
    by (simp flip: power_int_diff)
  also have "\<dots> \<le> a / 2 powi (?e - 52)"
    using lo by (intro divide_right_mono) simp_all
  finally have "of_int (2 ^ 52) \<le> a / 2 powi (?e - 52)" by simp
  then have m: "2 ^ 52 \<le> round_half_even (a / 2 powi (?e - 52))"
    by (rule round_half_even_ge)
  have "(2::rat) ^ 53 = of_int (2 ^ 52) * 2 powi 1" by simp
  also have "\<dots> \<le> of_int (round_half_even (a / 2 powi (?e - 52))) * 2 powi 1"
    using m by (intro mult_right_mono) (simp_all only: of_int_le_iff zero_le_power_int zero_le_numeral)
  also have "\<dots> \<le> of_int (round_half_even (a / 2 powi (?e - 52))) * 2 powi (?e - 52)"
  proof (intro mult_left_mono power_int_increasing)
    show "1 \<le> ?e - 52" using e by simp
    show "(1::rat) \<le> 2" by simp
    have "(0::int) \<le> 2 ^ 52" by simp
    with m show "(0::rat) \<le> of_int (round_half_even (a / 2 powi (?e - 52)))"
      by (simp only: of_int_0_le_iff)
  qed
  finally show ?thesis
    by (simp add: round_magnitude_def Let_def q)
qed

text \<open>The error of rounding is at most half a unit in the last place.\<close>

lemma round_magnitude_error:
  assumes "0 < a" and "- 1022 \<le> floor_log2 a"
  shows "\<bar>round_magnitude a - a\<bar> \<le> 2 powi (floor_log2 a - 53)"
proof -
  let ?q = "floor_log2 a - 52"
  let ?m = "round_half_even (a / 2 powi ?q)"
  have q: "max ?q (- 1074) = ?q" using assms(2) by simp
  have pos: "(0::rat) < 2 powi ?q" by simp
  have "(of_int ?m - a / 2 powi ?q) * 2 powi ?q = of_int ?m * 2 powi ?q - a"
    by (simp add: left_diff_distrib)
  then have "\<bar>of_int ?m * 2 powi ?q - a\<bar> = \<bar>(of_int ?m - a / 2 powi ?q) * 2 powi ?q\<bar>"
    by (simp only:)
  also have "\<dots> = \<bar>of_int ?m - a / 2 powi ?q\<bar> * 2 powi ?q"
    by (simp add: abs_mult)
  also have "\<dots> \<le> (1 / 2) * 2 powi ?q"
    by (intro mult_right_mono round_half_even_error) simp
  also have "\<dots> = 2 powi (floor_log2 a - 53)"
    by (simp add: power_int_diff)
  finally show ?thesis
    by (simp add: round_magnitude_def Let_def q)
qed

lemma round_double_of_exact_magnitude:
  assumes "round_magnitude \<bar>x\<bar> = \<bar>x\<bar>" and "\<bar>x\<bar> < 2 ^ 1024"
  shows "round_double x = Fin x"
proof (cases "x = 0")
  case True
  then show ?thesis by (simp add: round_double_def)
next
  case False
  from assms(2) have small: "\<not> 2 ^ 1024 \<le> \<bar>x\<bar>" by simp
  show ?thesis
  proof (cases "0 < x")
    case True
    with assms(1) small show ?thesis
      by (simp add: round_double_def Let_def)
  next
    case neg: False
    with False have "x < 0" by simp
    with assms(1) small show ?thesis
      by (simp add: round_double_def Let_def)
  qed
qed

lemma round_double_exact:
  assumes "\<bar>k\<bar> \<le> 2 ^ 53" and "d \<le> 1000"
  shows "round_double (of_int k / 2 ^ d) = Fin (of_int k / 2 ^ d)"
proof (cases "k = 0")
  case True
  then show ?thesis by (simp add: round_double_def)
next
  case False
  let ?x = "of_int k / 2 ^ d :: rat"
  have abs: "\<bar>?x\<bar> = of_int \<bar>k\<bar> / 2 ^ d" by simp
  from False assms have "0 < \<bar>k\<bar>" "\<bar>k\<bar> \<le> 2 ^ 53" by simp_all
  then have "round_magnitude (of_int \<bar>k\<bar> / 2 ^ d) = of_int \<bar>k\<bar> / 2 ^ d"
    using assms(2) by (rule round_magnitude_exact)
  then have r: "round_magnitude \<bar>?x\<bar> = \<bar>?x\<bar>"
    by (simp only: abs)
  have "(of_int \<bar>k\<bar> :: rat) \<le> of_int (2 ^ 53)"
    using assms(1) by (simp only: of_int_le_iff)
  then have "of_int \<bar>k\<bar> / 2 ^ d \<le> (2 ^ 53 / 2 ^ d :: rat)"
    by (intro divide_right_mono) simp_all
  also have "\<dots> \<le> 2 ^ 53 / 1"
    by (intro divide_left_mono) simp_all
  also have "\<dots> < (2::rat) ^ 1024" by simp
  finally have "\<bar>?x\<bar> < 2 ^ 1024" by (simp only: abs)
  with r show ?thesis by (rule round_double_of_exact_magnitude)
qed

lemma round_double_int:
  assumes "\<bar>k\<bar> \<le> 2 ^ 53"
  shows "round_double (of_int k) = int_num k"
  using round_double_exact [OF assms, of 0] by (simp add: int_num_def)

lemma round_double_half:
  assumes "\<bar>k\<bar> \<le> 2 ^ 53"
  shows "round_double (of_int k / 2) = Fin (of_int k / 2)"
  using round_double_exact [OF assms, of 1] by simp

lemma round_double_large:
  assumes "2 ^ 53 \<le> x"
  shows "round_double x = PosInf \<or> (\<exists>r. round_double x = Fin r \<and> 2 ^ 53 \<le> r)"
proof -
  have pos: "0 < x"
    using assms by (rule less_le_trans [rotated]) simp
  then have "2 ^ 53 \<le> round_magnitude \<bar>x\<bar>"
    using assms by (intro round_magnitude_large) simp
  with pos show ?thesis
    by (simp add: round_double_def Let_def)
qed

lemma round_double_small:
  assumes "x \<le> - (2 ^ 53)"
  shows "round_double x = NegInf \<or> (\<exists>r. round_double x = Fin r \<and> r \<le> - (2 ^ 53))"
proof -
  have neg: "x < 0"
    using assms by (rule le_less_trans) simp
  then have "2 ^ 53 \<le> round_magnitude \<bar>x\<bar>"
    using assms by (intro round_magnitude_large) simp
  with neg show ?thesis
    by (simp add: round_double_def Let_def)
qed

lemma round_double_pos:
  assumes "0 < x" and "round_magnitude x < 2 ^ 1024"
  shows "round_double x = Fin (round_magnitude x)"
  using assms by (simp add: round_double_def Let_def)

lemma round_double_not_NaN: "round_double x \<noteq> NaN"
  by (simp add: round_double_def Let_def)

text \<open>
  Dividing a count below \<open>2^53\<close> by a page size and rounding up: the rounding of the
  quotient to a double does not change the result.
\<close>

lemma ceiling_round_quotient:
  assumes t: "0 \<le> t" "t < 2 ^ 53" and b: "1 \<le> b" "b \<le> 100"
  shows "\<exists>r. round_double (of_int t / of_int b) = Fin r \<and> \<lceil>r\<rceil> = \<lceil>of_int t / of_int b :: rat\<rceil>"
proof (cases "b dvd t")
  case True
  then obtain k where k: "t = b * k" by (auto simp: dvd_def)
  with t b have "0 \<le> k"
    by (simp add: zero_le_mult_iff)
  moreover from this k b have "k \<le> t"
    by (simp add: mult_le_cancel_right1)
  ultimately have "\<bar>k\<bar> \<le> 2 ^ 53" using t by simp
  then have "round_double (of_int k) = int_num k" by (rule round_double_int)
  moreover have "(of_int t / of_int b :: rat) = of_int k"
    using k b by simp
  ultimately show ?thesis by (simp add: int_num_def)
next
  case False
  let ?a = "of_int t / of_int b :: rat"
  let ?e = "floor_log2 ?a"
  let ?n = "\<lceil>?a\<rceil>"
  have bpos: "(0::rat) < of_int b" using b by simp
  from False have tne: "t \<noteq> 0" by auto
  with t have tpos: "0 < t" by simp
  then have apos: "0 < ?a" using bpos by simp
  from floor_log2_bounds [OF apos]
  have lo: "2 powi ?e \<le> ?a" and hi: "?a < 2 powi (?e + 1)" by simp_all
  have "(1::rat) / 128 \<le> 1 / of_int b"
    using b by (intro divide_left_mono) simp_all
  also have "\<dots> \<le> ?a"
    using tpos bpos by (intro divide_right_mono) simp_all
  finally have "(1::rat) / 128 \<le> ?a" .
  moreover have "(2::rat) powi (- 7) = 1 / 128"
    by (simp add: power_int_minus)
  ultimately have "(2::rat) powi (- 7) < 2 powi (?e + 1)"
    using hi by (simp only: le_less_trans)
  then have "- 7 < ?e + 1" by (rule two_powi_less_imp_less)
  then have e_lo: "- 1022 \<le> ?e" by simp
  from round_magnitude_error [OF apos e_lo]
  have err: "\<bar>round_magnitude ?a - ?a\<bar> \<le> 2 powi (?e - 53)" .
  have "of_int b * 2 powi ?e \<le> (of_int t :: rat)"
    using lo bpos by (simp add: pos_le_divide_eq mult.commute)
  also have "\<dots> < 2 ^ 53"
    using t(2) by (metis of_int_less_iff of_int_numeral of_int_power)
  finally have "of_int b * 2 powi ?e < (2::rat) powi 53" by simp
  then have "of_int b < (2::rat) powi 53 / 2 powi ?e"
    by (simp add: pos_less_divide_eq)
  also have "\<dots> = 2 powi (53 - ?e)"
    by (simp add: power_int_diff)
  finally have "of_int b * 2 powi (?e - 53) < (2::rat) powi (53 - ?e) * 2 powi (?e - 53)"
    by (intro mult_strict_right_mono) simp_all
  also have "\<dots> = 1" by (simp flip: power_int_add)
  finally have ulp: "2 powi (?e - 53) < 1 / (of_int b :: rat)"
    using bpos by (simp add: pos_less_divide_eq mult.commute)
  have nonint: "?a \<noteq> of_int ?n"
  proof
    assume "?a = of_int ?n"
    then have "(of_int t :: rat) = of_int (b * ?n)"
      using bpos by (simp add: field_simps)
    then have "t = b * ?n" by (simp only: of_int_eq_iff)
    then have "b dvd t" by (rule dvdI)
    with False show False by simp
  qed
  have up: "?a \<le> of_int ?n" by (rule le_of_int_ceiling)
  from nonint up have "?a < of_int ?n" by (rule order.not_eq_order_implies_strict)
  then have "(of_int t :: rat) < of_int (?n * b)"
    using bpos by (simp add: pos_divide_less_eq)
  then have "t < ?n * b" by (simp only: of_int_less_iff)
  then have "t + 1 \<le> ?n * b" by simp
  then have "(of_int (t + 1) :: rat) \<le> of_int (?n * b)" by (simp only: of_int_le_iff)
  then have "(of_int t + 1 :: rat) \<le> of_int ?n * of_int b" by simp
  then have "(of_int t + 1) / of_int b \<le> (of_int ?n :: rat)"
    using bpos by (simp only: pos_divide_le_eq)
  then have above: "?a + 1 / of_int b \<le> of_int ?n"
    by (simp only: add_divide_distrib)
  have "of_int ?n - 1 < ?a" by linarith
  then have "(of_int ((?n - 1) * b) :: rat) < of_int t"
    using bpos by (simp add: pos_less_divide_eq)
  then have "(?n - 1) * b < t" by (simp only: of_int_less_iff)
  then have "(?n - 1) * b + 1 \<le> t" by simp
  then have "(of_int ((?n - 1) * b + 1) :: rat) \<le> of_int t" by (simp only: of_int_le_iff)
  then have "((of_int ?n - 1) * of_int b + 1 :: rat) \<le> of_int t" by simp
  then have "((of_int ?n - 1) * of_int b + 1) / of_int b \<le> ?a"
    using bpos by (intro divide_right_mono) simp_all
  moreover have "((of_int ?n - 1) * of_int b + 1) / of_int b = (of_int ?n - 1 + 1 / of_int b :: rat)"
    using bpos by (simp add: add_divide_distrib)
  ultimately have below: "of_int ?n - 1 + 1 / of_int b \<le> ?a"
    by (simp only:)
  let ?r = "round_magnitude ?a"
  from err ulp have "\<bar>?r - ?a\<bar> < 1 / of_int b" by simp
  with above below have r: "of_int ?n - 1 < ?r" "?r < of_int ?n"
    by linarith+
  then have ceil: "\<lceil>?r\<rceil> = ?n"
    by (intro ceiling_unique) simp_all
  have "of_int ?n \<le> (of_int t :: rat)"
  proof -
    have "?a \<le> of_int t"
      using tpos b by (simp add: pos_divide_le_eq mult_le_cancel_left1)
    then have "?n \<le> t" by (simp add: ceiling_le_iff)
    then show ?thesis by simp
  qed
  also have "\<dots> < 2 ^ 1024"
  proof -
    have "(of_int t :: rat) < of_int (2 ^ 53)" using t(2) by (simp only: of_int_less_iff)
    also have "\<dots> < 2 ^ 1024" by simp
    finally show ?thesis .
  qed
  finally have "(of_int ?n :: rat) < 2 ^ 1024" .
  with r(2) have "?r < 2 ^ 1024" by (rule less_trans)
  with apos have "round_double ?a = Fin ?r" by (rule round_double_pos)
  with ceil show ?thesis by blast
qed

text \<open>Evaluating a rounding from its exponent and its rounded significand.\<close>

lemma ceiling_divide_rat_numeral:
  "\<lceil>numeral a / numeral b :: rat\<rceil> = - (- numeral a div numeral b)"
proof -
  have "\<lceil>rat_of_int (numeral a) / rat_of_int (numeral b)\<rceil> = - \<lfloor>- (rat_of_int (numeral a) / rat_of_int (numeral b))\<rfloor>"
    by (simp add: ceiling_def)
  also have "- (rat_of_int (numeral a) / rat_of_int (numeral b)) = rat_of_int (- numeral a) / rat_of_int (numeral b)"
    by simp
  also have "\<lfloor>rat_of_int (- numeral a) / rat_of_int (numeral b)\<rfloor> = - numeral a div numeral b"
    by (rule floor_divide_of_int_eq)
  finally show ?thesis by simp
qed

lemma floor_divide_rat_numeral:
  "\<lfloor>numeral a / numeral b :: rat\<rfloor> = numeral a div numeral b"
  using floor_divide_of_int_eq [of "numeral a" "numeral b", where ?'a = rat] by simp

lemma floor_log2_unique:
  assumes "2 powi e \<le> a" and "a < 2 powi (e + 1)"
  shows "floor_log2 a = e"
proof -
  have pos: "0 < a"
    using assms(1) by (rule less_le_trans [rotated]) simp
  from floor_log2_bounds [OF pos]
  have lo: "2 powi (floor_log2 a) \<le> a" and hi: "a < 2 powi (floor_log2 a + 1)" by simp_all
  from lo assms(2) have "(2::rat) powi (floor_log2 a) < 2 powi (e + 1)" by simp
  then have "floor_log2 a < e + 1" by (rule two_powi_less_imp_less)
  moreover from assms(1) hi have "(2::rat) powi e < 2 powi (floor_log2 a + 1)" by simp
  then have "e < floor_log2 a + 1" by (rule two_powi_less_imp_less)
  ultimately show ?thesis by simp
qed

lemma round_double_eval:
  assumes "2 powi e \<le> a" and "a < 2 powi (e + 1)" and "- 1022 \<le> e"
    and "round_half_even (a / 2 powi (e - 52)) = m"
    and "rat_of_int m * 2 powi (e - 52) < 2 ^ 1024"
  shows "round_double a = Fin (of_int m * 2 powi (e - 52))"
proof -
  have pos: "0 < a"
    using assms(1) by (rule less_le_trans [rotated]) simp
  have "floor_log2 a = e"
    using assms(1,2) by (rule floor_log2_unique)
  then have "round_magnitude a = of_int m * 2 powi (e - 52)"
    using assms(3,4) by (simp add: round_magnitude_def Let_def)
  with pos assms(5) show ?thesis
    by (simp add: round_double_pos)
qed

section \<open>Integers as numbers\<close>

lemma Fin_as_int_num:
  "Fin 0 = int_num 0" "Fin 1 = int_num 1" "Fin (numeral n) = int_num (numeral n)"
  by (simp_all add: int_num_def)

lemma int_num_eq_iff: "int_num a = int_num b \<longleftrightarrow> a = b"
  by (simp add: int_num_def)

lemma int_num_not_NaN: "int_num a \<noteq> NaN"
  by (simp add: int_num_def)

lemma num_lt_int: "num_lt (int_num a) (int_num b) = (a < b)"
  by (simp add: int_num_def)

lemma num_le_int: "num_le (int_num a) (int_num b) = (a \<le> b)"
  by (auto simp add: int_num_def num_le_def)

lemma num_eq_int: "num_eq (int_num a) (int_num b) = (a = b)"
  by (simp add: int_num_def num_eq_def)

lemma Math_max_int: "Math_max (int_num a) (int_num b) = int_num (max a b)"
  by (simp add: int_num_def Math_max_def max_def)

lemma Math_min_int: "Math_min (int_num a) (int_num b) = int_num (min a b)"
  by (simp add: int_num_def Math_min_def min_def)

lemma num_add_int:
  assumes "\<bar>a + b\<bar> \<le> 2 ^ 53"
  shows "num_add (int_num a) (int_num b) = int_num (a + b)"
  using round_double_int [OF assms] by (simp add: int_num_def)

lemma num_sub_int:
  assumes "\<bar>a - b\<bar> \<le> 2 ^ 53"
  shows "num_sub (int_num a) (int_num b) = int_num (a - b)"
  using round_double_int [OF assms] by (simp add: int_num_def num_sub_def negate_def)

lemma num_mul_int:
  assumes "\<bar>a * b\<bar> \<le> 2 ^ 53"
  shows "num_mul (int_num a) (int_num b) = int_num (a * b)"
  using round_double_int [OF assms] by (simp add: int_num_def)

lemma Math_ceil_num_div_int:
  assumes "0 \<le> t" "t < 2 ^ 53" "1 \<le> b" "b \<le> 100"
  shows "Math_ceil (num_div (int_num t) (int_num b)) = int_num \<lceil>of_int t / of_int b :: rat\<rceil>"
proof -
  from ceiling_round_quotient [OF assms] obtain r
    where r: "round_double (of_int t / of_int b) = Fin r"
      and c: "\<lceil>r\<rceil> = \<lceil>of_int t / of_int b :: rat\<rceil>" by blast
  have "num_div (int_num t) (int_num b) = Fin r"
    using assms(3) r by (simp add: int_num_def)
  with c show ?thesis
    by (simp add: Math_ceil_def int_num_def)
qed

text \<open>A sum that may pass \<open>2^53\<close> is still right under a minimum with a smaller number.\<close>

lemma Math_min_num_add_int:
  assumes "- (2 ^ 53) \<le> a + b" and "t < 2 ^ 53"
  shows "Math_min (num_add (int_num a) (int_num b)) (int_num t) = int_num (min (a + b) t)"
proof (cases "a + b \<le> 2 ^ 53")
  case True
  with assms(1) have "\<bar>a + b\<bar> \<le> 2 ^ 53" by simp
  then show ?thesis
    by (simp add: num_add_int Math_min_int)
next
  case False
  then have "(of_int (2 ^ 53) :: rat) \<le> of_int (a + b)"
    by (simp only: of_int_le_iff)
  then have "(2 ^ 53 :: rat) \<le> of_int a + of_int b" by simp
  from round_double_large [OF this]
  have big: "round_double (of_int a + of_int b) = PosInf
      \<or> (\<exists>r. round_double (of_int a + of_int b) = Fin r \<and> 2 ^ 53 \<le> r)" .
  have t: "(of_int t :: rat) < 2 ^ 53"
    using assms(2) by (metis of_int_less_iff of_int_numeral of_int_power)
  from False assms(2) have m: "min (a + b) t = t" by simp
  from big show ?thesis
  proof
    assume "round_double (of_int a + of_int b) = PosInf"
    then show ?thesis
      by (simp add: m int_num_def Math_min_def)
  next
    assume "\<exists>r. round_double (of_int a + of_int b) = Fin r \<and> 2 ^ 53 \<le> r"
    then obtain r where r: "round_double (of_int a + of_int b) = Fin r" "2 ^ 53 \<le> r" by blast
    with t have "of_int t < r" by simp
    with r(1) show ?thesis
      by (simp add: m int_num_def Math_min_def)
  qed
qed

text \<open>And a difference that may pass \<open>-2^53\<close> under a maximum with a larger number.\<close>

lemma Math_max_num_sub_int:
  assumes "a - b \<le> 2 ^ 53" and "- (2 ^ 53) < t"
  shows "Math_max (num_sub (int_num a) (int_num b)) (int_num t) = int_num (max (a - b) t)"
proof (cases "- (2 ^ 53) \<le> a - b")
  case True
  with assms(1) have "\<bar>a - b\<bar> \<le> 2 ^ 53" by simp
  then show ?thesis
    by (simp add: num_sub_int Math_max_int)
next
  case False
  then have "a - b \<le> - (2 ^ 53)" by simp
  then have "(of_int (a - b) :: rat) \<le> of_int (- (2 ^ 53))"
    by (simp only: of_int_le_iff)
  then have "(of_int a - of_int b :: rat) \<le> - (2 ^ 53)" by simp
  from round_double_small [OF this]
  have small: "round_double (of_int a - of_int b) = NegInf
      \<or> (\<exists>r. round_double (of_int a - of_int b) = Fin r \<and> r \<le> - (2 ^ 53))" .
  have "(of_int (- (2 ^ 53)) :: rat) < of_int t"
    using assms(2) by (simp only: of_int_less_iff)
  then have t: "(- (2 ^ 53) :: rat) < of_int t" by simp
  from False assms(2) have m: "max (a - b) t = t" by simp
  from small show ?thesis
  proof
    assume "round_double (of_int a - of_int b) = NegInf"
    then show ?thesis
      by (simp add: m int_num_def Math_max_def num_sub_def negate_def)
  next
    assume "\<exists>r. round_double (of_int a - of_int b) = Fin r \<and> r \<le> - (2 ^ 53)"
    then obtain r where r: "round_double (of_int a - of_int b) = Fin r" "r \<le> - (2 ^ 53)" by blast
    with t have "r < of_int t" by simp
    with r(1) show ?thesis
      by (simp add: m int_num_def Math_max_def num_sub_def negate_def)
  qed
qed

section \<open>Properties of \<open>calculate\<close>\<close>

subsection \<open>The fields of the result\<close>

lemma pageSize_calculate:
  "pageSize (calculate params) =
     Math_min (Math_max (nullish (limit params) DEFAULT_LIMIT) (Fin 1)) MAX_LIMIT"
  by (simp only: calculate_def Let_def PaginationResult.select_convs)

lemma totalItems_calculate:
  "totalItems (calculate params) = Math_max (PaginationParams.totalItems params) (Fin 0)"
  by (simp only: calculate_def Let_def PaginationResult.select_convs)

lemma totalPages_calculate:
  "totalPages (calculate params) =
     Math_ceil (num_div (totalItems (calculate params)) (pageSize (calculate params)))"
  by (simp only: calculate_def Let_def PaginationResult.select_convs)

lemma currentPage_calculate:
  "currentPage (calculate params) =
     Math_min (Math_max (nullish (page params) DEFAULT_PAGE) (Fin 1))
       (Math_max (totalPages (calculate params)) (Fin 1))"
  by (simp only: calculate_def Let_def PaginationResult.select_convs)

lemma offset_calculate:
  "offset (calculate params) =
     num_mul (num_sub (currentPage (calculate params)) (Fin 1)) (pageSize (calculate params))"
  by (simp only: calculate_def Let_def PaginationResult.select_convs)

lemma hasNextPage_calculate:
  "hasNextPage (calculate params) =
     num_lt (currentPage (calculate params)) (totalPages (calculate params))"
  by (simp only: calculate_def Let_def PaginationResult.select_convs)

lemma hasPreviousPage_calculate:
  "hasPreviousPage (calculate params) = num_lt (Fin 1) (currentPage (calculate params))"
  by (simp only: calculate_def Let_def PaginationResult.select_convs)

lemma nextPage_calculate:
  "nextPage (calculate params) =
     (if hasNextPage (calculate params)
      then Some (num_add (currentPage (calculate params)) (Fin 1)) else None)"
  by (simp only: calculate_def Let_def PaginationResult.select_convs)

lemma previousPage_calculate:
  "previousPage (calculate params) =
     (if hasPreviousPage (calculate params)
      then Some (num_sub (currentPage (calculate params)) (Fin 1)) else None)"
  by (simp only: calculate_def Let_def PaginationResult.select_convs)

lemma items_calculate:
  "items (calculate params) =
    \<lparr> start = (if num_eq (totalItems (calculate params)) (Fin 0) then Fin 0
                else num_add (offset (calculate params)) (Fin 1)),
      end' = Math_min (num_add (offset (calculate params)) (pageSize (calculate params)))
               (totalItems (calculate params)) \<rparr>"
  by (simp only: calculate_def Let_def PaginationResult.select_convs)

subsection \<open>Exact values\<close>

lemma clamped_limit_range: "1 \<le> clamped_limit l \<and> clamped_limit l \<le> 100"
  by (simp add: clamped_limit_def)

lemma exact_totalPages_bounds:
  "(exact_totalPages l t - 1) * clamped_limit l < max t 0
   \<and> max t 0 \<le> exact_totalPages l t * clamped_limit l"
proof -
  let ?b = "clamped_limit l"
  let ?a = "rat_of_int (max t 0) / rat_of_int ?b"
  have pos: "(0::rat) < of_int ?b"
    using clamped_limit_range [of l] by simp
  have "?a \<le> of_int (exact_totalPages l t)"
    unfolding exact_totalPages_def by (rule le_of_int_ceiling)
  then have "rat_of_int (max t 0) \<le> of_int (exact_totalPages l t * ?b)"
    using pos by (simp add: pos_divide_le_eq)
  then have upper: "max t 0 \<le> exact_totalPages l t * ?b"
    by (simp only: of_int_le_iff)
  have "of_int (exact_totalPages l t) - 1 < ?a"
    unfolding exact_totalPages_def by linarith
  then have "rat_of_int ((exact_totalPages l t - 1) * ?b) < of_int (max t 0)"
    using pos by (simp add: pos_less_divide_eq)
  then have "(exact_totalPages l t - 1) * ?b < max t 0"
    by (simp only: of_int_less_iff)
  with upper show ?thesis by simp
qed

lemma exact_totalPages_range: "0 \<le> exact_totalPages l t \<and> exact_totalPages l t \<le> max t 0"
proof -
  let ?b = "clamped_limit l"
  have b: "1 \<le> ?b" using clamped_limit_range [of l] by simp
  have "0 \<le> rat_of_int (max t 0) / rat_of_int ?b"
    using b by simp
  then have lower: "0 \<le> exact_totalPages l t"
    unfolding exact_totalPages_def by (simp add: order_trans [OF _ le_of_int_ceiling])
  have "rat_of_int (max t 0) / rat_of_int ?b \<le> rat_of_int (max t 0) / 1"
    using b by (intro divide_left_mono) simp_all
  then have "exact_totalPages l t \<le> max t 0"
    unfolding exact_totalPages_def by (simp add: ceiling_le_iff)
  with lower show ?thesis by simp
qed

lemma exact_totalPages_zero: "t \<le> 0 \<Longrightarrow> exact_totalPages l t = 0"
  by (simp add: exact_totalPages_def max_def)

lemma exact_currentPage_range:
  "1 \<le> exact_currentPage p l t \<and> exact_currentPage p l t \<le> max (exact_totalPages l t) 1"
  by (simp add: exact_currentPage_def)

text \<open>The offset stays below the number of items.\<close>

lemma exact_offset_bounds:
  "0 \<le> (exact_currentPage p l t - 1) * clamped_limit l
   \<and> (exact_currentPage p l t - 1) * clamped_limit l \<le> max t 0
   \<and> (0 < t \<longrightarrow> (exact_currentPage p l t - 1) * clamped_limit l < t)"
proof -
  let ?b = "clamped_limit l"
  let ?tp = "exact_totalPages l t"
  let ?cp = "exact_currentPage p l t"
  have b: "1 \<le> ?b" using clamped_limit_range [of l] by simp
  have cp: "1 \<le> ?cp" "?cp \<le> max ?tp 1" using exact_currentPage_range [of p l t] by simp_all
  have lower: "0 \<le> (?cp - 1) * ?b" using cp(1) b by simp
  show ?thesis
  proof (cases "1 \<le> ?tp")
    case True
    with cp(2) have "?cp - 1 \<le> ?tp - 1" by simp
    then have "(?cp - 1) * ?b \<le> (?tp - 1) * ?b"
      using b by (intro mult_right_mono) simp_all
    also have "\<dots> < max t 0" using exact_totalPages_bounds [of l t] by simp
    finally have "(?cp - 1) * ?b < max t 0" .
    with lower show ?thesis by (simp add: max_def split: if_splits)
  next
    case False
    with cp have "?cp = 1" by simp
    moreover from False exact_totalPages_range [of l t] have tp0: "?tp = 0" by simp
    have "t \<le> 0"
    proof (rule ccontr)
      assume "\<not> t \<le> 0"
      with exact_totalPages_bounds [of l t] tp0 show False by simp
    qed
    ultimately show ?thesis by simp
  qed
qed

subsection \<open>On integers below \<open>2^53\<close> the fields are the exact values\<close>

lemma nullish_int_num: "nullish (map_option int_num v) (int_num d) = int_num (nullish v d)"
  by (cases v) (simp_all add: nullish_def)

lemma pageSize_int: "pageSize (calculate (int_params p l t)) = int_num (clamped_limit l)"
  by (simp add: pageSize_calculate int_params_def DEFAULT_LIMIT_def MAX_LIMIT_def
      Fin_as_int_num nullish_int_num Math_max_int Math_min_int clamped_limit_def)

lemma totalItems_int: "totalItems (calculate (int_params p l t)) = int_num (max t 0)"
  by (simp add: totalItems_calculate int_params_def Fin_as_int_num Math_max_int)

lemma totalPages_int:
  assumes "t < 2 ^ 53"
  shows "totalPages (calculate (int_params p l t)) = int_num (exact_totalPages l t)"
proof -
  from assms have "0 \<le> max t 0" "max t 0 < 2 ^ 53" by simp_all
  then have "Math_ceil (num_div (int_num (max t 0)) (int_num (clamped_limit l)))
      = int_num \<lceil>rat_of_int (max t 0) / rat_of_int (clamped_limit l)\<rceil>"
    using clamped_limit_range [of l] by (intro Math_ceil_num_div_int) simp_all
  then show ?thesis
    by (simp add: totalPages_calculate totalItems_int pageSize_int exact_totalPages_def)
qed

lemma currentPage_int:
  assumes "t < 2 ^ 53"
  shows "currentPage (calculate (int_params p l t)) = int_num (exact_currentPage p l t)"
proof -
  have "page (int_params p l t) = map_option int_num p"
    by (simp add: int_params_def)
  then show ?thesis
    by (simp add: currentPage_calculate totalPages_int [OF assms] DEFAULT_PAGE_def
        Fin_as_int_num nullish_int_num Math_max_int Math_min_int exact_currentPage_def)
qed

lemma exact_currentPage_small:
  assumes "t < 2 ^ 53"
  shows "exact_currentPage p l t < 2 ^ 53"
proof -
  have "exact_currentPage p l t \<le> max (exact_totalPages l t) 1"
    using exact_currentPage_range [of p l t] by simp
  also have "\<dots> \<le> max (max t 0) 1"
    using exact_totalPages_range [of l t] by (intro max.mono) simp_all
  also have "\<dots> < 2 ^ 53" using assms by simp
  finally show ?thesis .
qed

lemma previous_int:
  assumes "t < 2 ^ 53"
  shows "num_sub (currentPage (calculate (int_params p l t))) (Fin 1)
    = int_num (exact_currentPage p l t - 1)"
proof -
  have "1 \<le> exact_currentPage p l t" using exact_currentPage_range [of p l t] by simp
  with exact_currentPage_small [OF assms, of p l]
  have "\<bar>exact_currentPage p l t - 1\<bar> \<le> 2 ^ 53" by simp
  then show ?thesis
    by (simp add: currentPage_int [OF assms] Fin_as_int_num num_sub_int)
qed

lemma below_count_small:
  fixes x t :: int
  assumes "0 \<le> x" and "x \<le> max t 0" and "t < 2 ^ 53"
  shows "\<bar>x\<bar> \<le> 2 ^ 53"
proof -
  from assms(2,3) have "x < 2 ^ 53" by (simp add: max_def split: if_splits)
  with assms(1) show ?thesis by simp
qed

lemma offset_int:
  assumes "t < 2 ^ 53"
  shows "offset (calculate (int_params p l t))
    = int_num ((exact_currentPage p l t - 1) * clamped_limit l)"
proof -
  from exact_offset_bounds [of p l t]
  have "0 \<le> (exact_currentPage p l t - 1) * clamped_limit l"
    and "(exact_currentPage p l t - 1) * clamped_limit l \<le> max t 0" by simp_all
  then have "\<bar>(exact_currentPage p l t - 1) * clamped_limit l\<bar> \<le> 2 ^ 53"
    using assms by (rule below_count_small)
  then show ?thesis
    by (simp only: offset_calculate previous_int [OF assms] pageSize_int num_mul_int)
qed

lemma hasNextPage_int:
  assumes "t < 2 ^ 53"
  shows "hasNextPage (calculate (int_params p l t))
    = (exact_currentPage p l t < exact_totalPages l t)"
  by (simp add: hasNextPage_calculate currentPage_int [OF assms] totalPages_int [OF assms]
      num_lt_int)

lemma hasPreviousPage_int:
  assumes "t < 2 ^ 53"
  shows "hasPreviousPage (calculate (int_params p l t)) = (1 < exact_currentPage p l t)"
  by (simp add: hasPreviousPage_calculate currentPage_int [OF assms] Fin_as_int_num num_lt_int)

lemma next_int:
  assumes "t < 2 ^ 53" and "exact_currentPage p l t < exact_totalPages l t"
  shows "num_add (currentPage (calculate (int_params p l t))) (Fin 1)
    = int_num (exact_currentPage p l t + 1)"
proof -
  have "exact_totalPages l t \<le> max t 0" using exact_totalPages_range [of l t] by simp
  with assms have "exact_currentPage p l t + 1 \<le> 2 ^ 53" by simp
  moreover have "1 \<le> exact_currentPage p l t" using exact_currentPage_range [of p l t] by simp
  ultimately have "\<bar>exact_currentPage p l t + 1\<bar> \<le> 2 ^ 53" by simp
  then show ?thesis
    by (simp add: currentPage_int [OF assms(1)] Fin_as_int_num num_add_int)
qed

lemma items_start_int:
  assumes "t < 2 ^ 53"
  shows "start (items (calculate (int_params p l t)))
    = int_num (if max t 0 = 0 then 0 else (exact_currentPage p l t - 1) * clamped_limit l + 1)"
proof (cases "0 < t")
  case True
  with exact_offset_bounds [of p l t] assms
  have "\<bar>(exact_currentPage p l t - 1) * clamped_limit l + 1\<bar> \<le> 2 ^ 53" by simp
  then have "num_add (int_num ((exact_currentPage p l t - 1) * clamped_limit l)) (int_num 1)
      = int_num ((exact_currentPage p l t - 1) * clamped_limit l + 1)"
    by (rule num_add_int)
  with True show ?thesis
    by (simp add: items_calculate totalItems_int offset_int [OF assms] Fin_as_int_num num_eq_int)
next
  case False
  then show ?thesis
    by (simp add: items_calculate totalItems_int Fin_as_int_num num_eq_int max_def)
qed

lemma items_end_int:
  assumes "t < 2 ^ 53"
  shows "end' (items (calculate (int_params p l t)))
    = int_num (min ((exact_currentPage p l t - 1) * clamped_limit l + clamped_limit l) (max t 0))"
proof -
  from exact_offset_bounds [of p l t] clamped_limit_range [of l]
  have "- (2 ^ 53) \<le> (exact_currentPage p l t - 1) * clamped_limit l + clamped_limit l"
    by simp
  moreover from assms have "max t 0 < 2 ^ 53" by simp
  ultimately have "Math_min
      (num_add (int_num ((exact_currentPage p l t - 1) * clamped_limit l)) (int_num (clamped_limit l)))
      (int_num (max t 0))
    = int_num (min ((exact_currentPage p l t - 1) * clamped_limit l + clamped_limit l) (max t 0))"
    by (rule Math_min_num_add_int)
  then show ?thesis
    by (simp add: items_calculate totalItems_int offset_int [OF assms] pageSize_int)
qed

subsection \<open>Without \<open>NaN\<close>\<close>

lemma Math_max_lower: "a \<noteq> NaN \<Longrightarrow> b \<noteq> NaN \<Longrightarrow> num_le b (Math_max a b)"
  by (cases a; cases b) (simp_all add: Math_max_def num_le_def)

lemma Math_max_not_NaN: "a \<noteq> NaN \<Longrightarrow> b \<noteq> NaN \<Longrightarrow> Math_max a b \<noteq> NaN"
  by (simp add: Math_max_def)

lemma Math_min_not_NaN: "a \<noteq> NaN \<Longrightarrow> b \<noteq> NaN \<Longrightarrow> Math_min a b \<noteq> NaN"
  by (simp add: Math_min_def)

lemma Math_min_range:
  assumes "num_le lo a" and "num_le lo hi"
  shows "num_le lo (Math_min a hi) \<and> num_le (Math_min a hi) hi"
  using assms by (cases a; cases hi; cases lo) (auto simp add: Math_min_def num_le_def)

lemma nullish_not_NaN: "v \<noteq> Some NaN \<Longrightarrow> d \<noteq> NaN \<Longrightarrow> nullish v d \<noteq> NaN"
  by (cases v) (simp_all add: nullish_def)

lemma pageSize_finite:
  assumes "limit params \<noteq> Some NaN"
  shows "\<exists>y. pageSize (calculate params) = Fin y \<and> 1 \<le> y \<and> y \<le> 100"
proof -
  from assms have "nullish (limit params) DEFAULT_LIMIT \<noteq> NaN"
    by (rule nullish_not_NaN) (simp add: DEFAULT_LIMIT_def)
  then show ?thesis
    unfolding pageSize_calculate MAX_LIMIT_def
    by (cases "nullish (limit params) DEFAULT_LIMIT") (auto simp add: Math_max_def Math_min_def)
qed

lemma num_div_not_NaN: "a \<noteq> NaN \<Longrightarrow> 0 < y \<Longrightarrow> num_div a (Fin y) \<noteq> NaN"
  by (cases a) (simp_all add: round_double_not_NaN)

lemma Math_ceil_not_NaN: "a \<noteq> NaN \<Longrightarrow> Math_ceil a \<noteq> NaN"
  by (cases a) (simp_all add: Math_ceil_def)

lemma totalPages_not_NaN:
  assumes "limit params \<noteq> Some NaN" and "PaginationParams.totalItems params \<noteq> NaN"
  shows "totalPages (calculate params) \<noteq> NaN"
proof -
  from pageSize_finite [OF assms(1)] obtain y
    where y: "pageSize (calculate params) = Fin y" "1 \<le> y" by blast
  have "totalItems (calculate params) \<noteq> NaN"
    unfolding totalItems_calculate using assms(2) by (intro Math_max_not_NaN) simp_all
  then have "num_div (totalItems (calculate params)) (Fin y) \<noteq> NaN"
    using y(2) by (intro num_div_not_NaN) simp_all
  then show ?thesis
    unfolding totalPages_calculate y(1) by (rule Math_ceil_not_NaN)
qed

lemma capped_above:
  assumes "p \<noteq> NaN" and "t \<noteq> NaN" and "num_lt t p"
  shows "Math_min (Math_max p (Fin 1)) (Math_max t (Fin 1)) = Math_max t (Fin 1)"
  using assms by (cases p; cases t) (auto simp add: Math_max_def Math_min_def)

text \<open>
  C2, as the code has it: for every input in which neither \<open>page\<close> nor \<open>limit\<close> nor
  \<open>totalItems\<close> is \<open>NaN\<close>, \<open>1 \<le> currentPage \<le> max(totalPages, 1)\<close>, and a page
  requested above \<open>totalPages\<close> gives \<open>max(totalPages, 1)\<close>: the last page, or page 1
  when there is no page. \<open>calculate\<close> is a total function: nothing is thrown.
\<close>

theorem calculate_currentPage_range:
  assumes "page params \<noteq> Some NaN" and "limit params \<noteq> Some NaN"
    and "PaginationParams.totalItems params \<noteq> NaN"
  shows "num_le (Fin 1) (currentPage (calculate params))
   \<and> num_le (currentPage (calculate params)) (Math_max (totalPages (calculate params)) (Fin 1))
   \<and> (\<forall>p. page params = Some p \<and> num_lt (totalPages (calculate params)) p
          \<longrightarrow> currentPage (calculate params) = Math_max (totalPages (calculate params)) (Fin 1))"
proof -
  let ?r = "calculate params"
  let ?page = "Math_max (nullish (page params) DEFAULT_PAGE) (Fin 1)"
  let ?last = "Math_max (totalPages ?r) (Fin 1)"
  have tp: "totalPages ?r \<noteq> NaN"
    using assms(2,3) by (rule totalPages_not_NaN)
  have req: "nullish (page params) DEFAULT_PAGE \<noteq> NaN"
    using assms(1) by (rule nullish_not_NaN) (simp add: DEFAULT_PAGE_def)
  have "num_le (Fin 1) ?page"
    using req by (intro Math_max_lower) simp_all
  moreover have "num_le (Fin 1) ?last"
    using tp by (intro Math_max_lower) simp_all
  ultimately have range: "num_le (Fin 1) (Math_min ?page ?last) \<and> num_le (Math_min ?page ?last) ?last"
    by (rule Math_min_range)
  have capped: "currentPage ?r = ?last" if "page params = Some p \<and> num_lt (totalPages ?r) p" for p
  proof -
    from that assms(1) have "p \<noteq> NaN" by auto
    moreover from that have "nullish (page params) DEFAULT_PAGE = p"
      by (simp add: nullish_def)
    ultimately show ?thesis
      unfolding currentPage_calculate using tp that by (simp add: capped_above)
  qed
  from range capped show ?thesis
    unfolding currentPage_calculate [symmetric] by blast
qed

theorem calculate_currentPage_range_witness:
  "page (int_params (Some 5) (Some 10) 20) = Some (int_num 5)
   \<and> totalPages (calculate (int_params (Some 5) (Some 10) 20)) = int_num 2
   \<and> num_lt (int_num 2) (int_num 5)
   \<and> currentPage (calculate (int_params (Some 5) (Some 10) 20)) = int_num 2"
proof -
  let ?p = "int_params (Some 5) (Some 10) 20"
  have no_NaN: "page ?p \<noteq> Some NaN" "limit ?p \<noteq> Some NaN" "PaginationParams.totalItems ?p \<noteq> NaN"
    by (simp_all add: int_params_def int_num_def)
  have pg: "page ?p = Some (int_num 5)"
    by (simp add: int_params_def)
  have tp: "totalPages (calculate ?p) = int_num 2"
    by (simp add: totalPages_int exact_totalPages_def clamped_limit_def nullish_def
        ceiling_divide_rat_numeral)
  have m: "Math_max (int_num 2) (Fin 1) = int_num 2"
    by (simp add: Math_max_def int_num_def)
  from calculate_currentPage_range [OF no_NaN] pg tp m show ?thesis
    by (simp add: num_lt_int)
qed

theorem calculate_currentPage_range_counterexample:
  "currentPage (calculate \<lparr>page = Some NaN, limit = Some (Fin 10), totalItems = Fin 20\<rparr>) = NaN
   \<and> \<not> num_le (Fin 1)
         (currentPage (calculate \<lparr>page = Some NaN, limit = Some (Fin 10), totalItems = Fin 20\<rparr>))
   \<and> currentPage (calculate \<lparr>page = Some (Fin 1), limit = Some NaN, totalItems = Fin 20\<rparr>) = NaN
   \<and> currentPage (calculate \<lparr>page = Some (Fin 1), limit = Some (Fin 10), totalItems = NaN\<rparr>) = NaN"
proof -
  let ?a = "calculate \<lparr>page = Some NaN, limit = Some (Fin 10), totalItems = Fin 20\<rparr>"
  let ?b = "calculate \<lparr>page = Some (Fin 1), limit = Some NaN, totalItems = Fin 20\<rparr>"
  let ?c = "calculate \<lparr>page = Some (Fin 1), limit = Some (Fin 10), totalItems = NaN\<rparr>"
  have a: "currentPage ?a = NaN"
    by (simp add: currentPage_calculate nullish_def Math_max_def Math_min_def)
  have "pageSize ?b = NaN"
    by (simp add: pageSize_calculate nullish_def Math_max_def Math_min_def)
  moreover have "totalItems ?b = Fin 20"
    by (simp add: totalItems_calculate Math_max_def)
  ultimately have "totalPages ?b = NaN"
    by (simp only: totalPages_calculate) (simp add: Math_ceil_def)
  then have b: "currentPage ?b = NaN"
    by (simp only: currentPage_calculate) (simp add: Math_max_def Math_min_def)
  have "totalItems ?c = NaN"
    by (simp add: totalItems_calculate Math_max_def)
  then have "totalPages ?c = NaN"
    by (simp only: totalPages_calculate) (simp add: Math_ceil_def)
  then have c: "currentPage ?c = NaN"
    by (simp only: currentPage_calculate) (simp add: Math_max_def Math_min_def)
  from a b c show ?thesis
    by (simp add: num_le_def)
qed

subsection \<open>Roundings above \<open>2^53\<close>\<close>

lemma round_double_2_55_div_3: "round_double (36028797018963968 / 3) = Fin 12009599006321322"
  using round_double_eval [of 53 "36028797018963968 / 3" 6004799503160661]
  by (simp add: round_half_even_def Let_def floor_divide_rat_numeral)

lemma round_double_2_53_plus_1: "round_double 9007199254740993 = Fin 9007199254740992"
  using round_double_eval [of 53 9007199254740993 4503599627370496]
  by (simp add: round_half_even_def Let_def floor_divide_rat_numeral)

lemma round_double_2_53_plus_2: "round_double 9007199254740994 = Fin 9007199254740994"
  using round_double_eval [of 53 9007199254740994 4503599627370497]
  by (simp add: round_half_even_def Let_def floor_divide_rat_numeral)

lemma round_double_2_53_plus_3: "round_double 9007199254740995 = Fin 9007199254740996"
  using round_double_eval [of 53 9007199254740995 4503599627370498]
  by (simp add: round_half_even_def Let_def floor_divide_rat_numeral)

lemma round_double_2_53_plus_4: "round_double 9007199254740996 = Fin 9007199254740996"
  using round_double_eval [of 53 9007199254740996 4503599627370498]
  by (simp add: round_half_even_def Let_def floor_divide_rat_numeral)

lemma round_double_2_55: "round_double 36028797018963968 = Fin 36028797018963968"
  using round_double_eval [of 55 36028797018963968 4503599627370496]
  by (simp add: round_half_even_def Let_def floor_divide_rat_numeral)

subsection \<open>The claims about \<open>calculate\<close>\<close>

text \<open>
  C1, as the code has it: for every input whose \<open>totalItems\<close> is an integer with
  \<open>0 \<le> totalItems < 2^53\<close> and whose \<open>page\<close> and \<open>limit\<close> are left out or integers,
  \<open>totalPages\<close> is the ceiling of \<open>totalItems\<close> divided by the page size, the limit in
  effect, which is in \<open>[1, 100]\<close> (and the requested limit when that is in \<open>[1, 100]\<close>):
  the least number of pages of that size that hold all the items. It is 0 when
  \<open>totalItems = 0\<close>.
\<close>

theorem calculate_totalPages:
  assumes "0 \<le> t" and "t < 2 ^ 53"
  shows "\<exists>ps tp.
      pageSize (calculate (int_params p l t)) = int_num ps
    \<and> totalPages (calculate (int_params p l t)) = int_num tp
    \<and> 1 \<le> ps \<and> ps \<le> 100
    \<and> (\<forall>k. l = Some k \<and> 1 \<le> k \<and> k \<le> 100 \<longrightarrow> ps = k)
    \<and> tp = \<lceil>rat_of_int t / rat_of_int ps\<rceil>
    \<and> (tp - 1) * ps < t \<and> t \<le> tp * ps
    \<and> (t = 0 \<longrightarrow> tp = 0)"
proof -
  let ?ps = "clamped_limit l"
  let ?tp = "exact_totalPages l t"
  from assms(1) have t: "max t 0 = t" by simp
  have "pageSize (calculate (int_params p l t)) = int_num ?ps"
    by (rule pageSize_int)
  moreover have "totalPages (calculate (int_params p l t)) = int_num ?tp"
    using assms(2) by (rule totalPages_int)
  moreover have "1 \<le> ?ps \<and> ?ps \<le> 100"
    by (rule clamped_limit_range)
  moreover have "\<forall>k. l = Some k \<and> 1 \<le> k \<and> k \<le> 100 \<longrightarrow> ?ps = k"
    by (simp add: clamped_limit_def nullish_def)
  moreover have "?tp = \<lceil>rat_of_int t / rat_of_int ?ps\<rceil>"
    by (simp add: exact_totalPages_def t)
  moreover have "(?tp - 1) * ?ps < t \<and> t \<le> ?tp * ?ps"
    using exact_totalPages_bounds [of l t] by (simp only: t)
  moreover have "t = 0 \<longrightarrow> ?tp = 0"
    by (simp add: exact_totalPages_zero)
  ultimately show ?thesis by blast
qed

theorem calculate_totalPages_witness:
  "(0::int) \<le> 21 \<and> (21::int) < 2 ^ 53
   \<and> pageSize (calculate (int_params (Some 5) (Some 10) 21)) = int_num 10
   \<and> totalPages (calculate (int_params (Some 5) (Some 10) 21)) = int_num 3
   \<and> totalPages (calculate (int_params None None 0)) = int_num 0"
proof -
  from calculate_totalPages [of 21 "Some 5" "Some 10"] obtain ps tp
    where a: "pageSize (calculate (int_params (Some 5) (Some 10) 21)) = int_num ps"
      "totalPages (calculate (int_params (Some 5) (Some 10) 21)) = int_num tp"
      "\<forall>k. Some (10::int) = Some k \<and> 1 \<le> k \<and> k \<le> 100 \<longrightarrow> ps = k"
      "tp = \<lceil>rat_of_int 21 / rat_of_int ps\<rceil>"
    by auto
  from a(3) have ps: "ps = 10" by simp
  with a(4) have tp: "tp = 3" by (simp add: ceiling_divide_rat_numeral)
  from calculate_totalPages [of 0 None None]
  have "totalPages (calculate (int_params None None 0)) = int_num 0"
    by auto
  with a(1,2) ps tp show ?thesis by simp
qed

theorem calculate_totalPages_counterexample:
  "pageSize (calculate (int_params None (Some 3) (2 ^ 55))) = int_num 3
   \<and> totalPages (calculate (int_params None (Some 3) (2 ^ 55))) = int_num 12009599006321322
   \<and> \<lceil>rat_of_int (2 ^ 55) / rat_of_int 3\<rceil> = 12009599006321323
   \<and> totalPages (calculate (int_params None (Some 3) (2 ^ 55)))
       \<noteq> int_num \<lceil>rat_of_int (2 ^ 55) / rat_of_int 3\<rceil>"
proof -
  let ?r = "calculate (int_params None (Some 3) (2 ^ 55))"
  have ps: "pageSize ?r = int_num 3"
    by (simp add: pageSize_int clamped_limit_def nullish_def)
  have ti: "totalItems ?r = int_num (2 ^ 55)"
    by (simp add: totalItems_int)
  have tp: "totalPages ?r = int_num 12009599006321322"
    by (simp only: totalPages_calculate ps ti)
      (simp add: int_num_def round_double_2_55_div_3 Math_ceil_def)
  have c: "\<lceil>rat_of_int (2 ^ 55) / rat_of_int 3\<rceil> = 12009599006321323"
    by (simp add: ceiling_divide_rat_numeral)
  from ps tp c show ?thesis
    by (simp add: int_num_def)
qed

text \<open>
  C5, as the code has it: for every input whose \<open>totalItems\<close> is an integer below
  \<open>2^53\<close> and whose \<open>page\<close> and \<open>limit\<close> are left out or integers,
  \<open>items.end = min(offset + pageSize, totalItems)\<close>; \<open>items.start = 0\<close> if and only if
  \<open>totalItems = 0\<close>, and it is \<open>offset + 1\<close> otherwise; so \<open>items\<close> is \<open>{0, 0}\<close>
  whenever \<open>totalItems = 0\<close>. Here \<open>totalItems\<close> is the field of the result, the given
  count clamped to at least 0.
\<close>

theorem calculate_items:
  assumes "t < 2 ^ 53"
  shows "\<exists>off ps ti.
      offset (calculate (int_params p l t)) = int_num off
    \<and> pageSize (calculate (int_params p l t)) = int_num ps
    \<and> totalItems (calculate (int_params p l t)) = int_num ti
    \<and> ti = max t 0
    \<and> end' (items (calculate (int_params p l t))) = int_num (min (off + ps) ti)
    \<and> (start (items (calculate (int_params p l t))) = int_num 0) = (ti = 0)
    \<and> (ti \<noteq> 0 \<longrightarrow> start (items (calculate (int_params p l t))) = int_num (off + 1))
    \<and> (ti = 0 \<longrightarrow> items (calculate (int_params p l t)) = \<lparr> start = int_num 0, end' = int_num 0 \<rparr>)"
proof -
  let ?r = "calculate (int_params p l t)"
  let ?ps = "clamped_limit l"
  let ?off = "(exact_currentPage p l t - 1) * ?ps"
  let ?ti = "max t 0"
  have off: "0 \<le> ?off" using exact_offset_bounds [of p l t] by simp
  have ps: "1 \<le> ?ps" using clamped_limit_range [of l] by simp
  have s: "start (items ?r) = int_num (if ?ti = 0 then 0 else ?off + 1)"
    using assms by (rule items_start_int)
  have e: "end' (items ?r) = int_num (min (?off + ?ps) ?ti)"
    using assms by (rule items_end_int)
  have "offset ?r = int_num ?off" using assms by (rule offset_int)
  moreover have "pageSize ?r = int_num ?ps" by (rule pageSize_int)
  moreover have "totalItems ?r = int_num ?ti" by (rule totalItems_int)
  moreover have "(start (items ?r) = int_num 0) = (?ti = 0)"
    using off by (auto simp add: s int_num_eq_iff)
  moreover have "?ti \<noteq> 0 \<longrightarrow> start (items ?r) = int_num (?off + 1)"
    by (simp add: s)
  moreover have "?ti = 0 \<longrightarrow> items ?r = \<lparr> start = int_num 0, end' = int_num 0 \<rparr>"
  proof
    assume z: "?ti = 0"
    with off ps have "min (?off + ?ps) ?ti = 0" by simp
    with s e z have "start (items ?r) = int_num 0" "end' (items ?r) = int_num 0" by simp_all
    then show "items ?r = \<lparr> start = int_num 0, end' = int_num 0 \<rparr>"
      by (cases "items ?r") simp
  qed
  ultimately show ?thesis using e by blast
qed

theorem calculate_items_witness:
  "(0::int) < 2 ^ 53 \<and> (20::int) < 2 ^ 53
   \<and> items (calculate (int_params (Some 1) (Some 10) 0)) = \<lparr> start = int_num 0, end' = int_num 0 \<rparr>
   \<and> totalItems (calculate (int_params (Some 5) (Some 10) 20)) = int_num 20
   \<and> offset (calculate (int_params (Some 5) (Some 10) 20)) = int_num 10
   \<and> start (items (calculate (int_params (Some 5) (Some 10) 20))) = int_num 11
   \<and> end' (items (calculate (int_params (Some 5) (Some 10) 20))) = int_num 20"
proof -
  let ?q = "calculate (int_params (Some 5) (Some 10) 20)"
  have off: "offset ?q = int_num 10"
    by (simp add: offset_int exact_currentPage_def exact_totalPages_def clamped_limit_def
        nullish_def ceiling_divide_rat_numeral)
  have ps: "pageSize ?q = int_num 10"
    by (simp add: pageSize_int clamped_limit_def nullish_def)
  from calculate_items [of 0 "Some 1" "Some 10"]
  have empty: "items (calculate (int_params (Some 1) (Some 10) 0))
      = \<lparr> start = int_num 0, end' = int_num 0 \<rparr>"
    by auto
  from calculate_items [of 20 "Some 5" "Some 10"] off ps
  have "totalItems ?q = int_num 20 \<and> start (items ?q) = int_num 11 \<and> end' (items ?q) = int_num 20"
    by (auto simp add: int_num_eq_iff)
  with empty off show ?thesis by simp
qed

theorem calculate_items_counterexample:
  "totalItems (calculate \<lparr>page = Some NaN, limit = Some (Fin 10), totalItems = Fin 0\<rparr>) = Fin 0
   \<and> items (calculate \<lparr>page = Some NaN, limit = Some (Fin 10), totalItems = Fin 0\<rparr>)
       = \<lparr> start = Fin 0, end' = NaN \<rparr>
   \<and> offset (calculate (int_params (Some (2 ^ 53 + 2)) (Some 1) (2 ^ 53 + 4))) = int_num (2 ^ 53)
   \<and> start (items (calculate (int_params (Some (2 ^ 53 + 2)) (Some 1) (2 ^ 53 + 4))))
       = int_num (2 ^ 53)"
proof -
  let ?n = "calculate \<lparr>page = Some NaN, limit = Some (Fin 10), totalItems = Fin 0\<rparr>"
  let ?r = "calculate (int_params (Some (2 ^ 53 + 2)) (Some 1) (2 ^ 53 + 4))"
  have n_ti: "totalItems ?n = Fin 0"
    by (simp add: totalItems_calculate Math_max_def)
  have n_cp: "currentPage ?n = NaN"
    by (simp add: currentPage_calculate nullish_def Math_max_def Math_min_def)
  have n_off: "offset ?n = NaN"
    by (simp add: offset_calculate n_cp num_sub_def)
  have n_items: "items ?n = \<lparr> start = Fin 0, end' = NaN \<rparr>"
    by (simp add: items_calculate n_ti n_off num_eq_def Math_min_def)
  have ps: "pageSize ?r = Fin 1"
    by (simp add: pageSize_int clamped_limit_def nullish_def int_num_def)
  have ti: "totalItems ?r = Fin 9007199254740996"
    by (simp add: totalItems_int int_num_def)
  have tp: "totalPages ?r = Fin 9007199254740996"
    by (simp only: totalPages_calculate ps ti)
      (simp add: round_double_2_53_plus_4 Math_ceil_def)
  have cp: "currentPage ?r = Fin 9007199254740994"
    by (simp only: currentPage_calculate tp)
      (simp add: int_params_def int_num_def nullish_def DEFAULT_PAGE_def Math_max_def Math_min_def)
  have off: "offset ?r = Fin 9007199254740992"
    using round_double_int [of "2 ^ 53"]
    by (simp only: offset_calculate cp ps)
      (simp add: num_sub_def negate_def round_double_2_53_plus_1 int_num_def)
  have st: "start (items ?r) = Fin 9007199254740992"
    by (simp only: items_calculate ti off)
      (simp add: num_eq_def round_double_2_53_plus_1)
  from n_ti n_items off st show ?thesis
    by (simp add: int_num_def)
qed

text \<open>
  C6: for every input, \<open>hasNextPage = (currentPage < totalPages)\<close> and
  \<open>hasPreviousPage = (currentPage > 1)\<close>, and \<open>nextPage\<close> (\<open>previousPage\<close>) is \<open>null\<close>
  exactly when the flag is false. The comparisons are those of the language, on
  any numbers, \<open>NaN\<close> included.
\<close>

theorem calculate_flags:
  "hasNextPage (calculate params)
     = num_lt (currentPage (calculate params)) (totalPages (calculate params))
   \<and> hasPreviousPage (calculate params) = num_lt (Fin 1) (currentPage (calculate params))
   \<and> (nextPage (calculate params) = None) = (\<not> hasNextPage (calculate params))
   \<and> (previousPage (calculate params) = None) = (\<not> hasPreviousPage (calculate params))"
proof -
  let ?r = "calculate params"
  have "(nextPage ?r = None) = (\<not> hasNextPage ?r)"
    by (simp add: nextPage_calculate)
  moreover have "(previousPage ?r = None) = (\<not> hasPreviousPage ?r)"
    by (simp add: previousPage_calculate)
  ultimately show ?thesis
    using hasNextPage_calculate [of params] hasPreviousPage_calculate [of params] by blast
qed

text \<open>
  C8, as the code has it: for every input whose \<open>totalItems\<close> is an integer below
  \<open>2^53\<close> and whose \<open>page\<close> and \<open>limit\<close> are left out or integers, the offset is
  \<open>(currentPage - 1) * pageSize\<close>, where \<open>pageSize\<close> is the limit (10 when left out)
  clamped to \<open>[1, 100]\<close>.
\<close>

theorem calculate_offset:
  assumes "t < 2 ^ 53"
  shows "\<exists>cp ps.
      currentPage (calculate (int_params p l t)) = int_num cp
    \<and> pageSize (calculate (int_params p l t)) = int_num ps
    \<and> offset (calculate (int_params p l t)) = int_num ((cp - 1) * ps)
    \<and> ps = min (max (nullish l 10) 1) 100"
proof -
  have "currentPage (calculate (int_params p l t)) = int_num (exact_currentPage p l t)"
    using assms by (rule currentPage_int)
  moreover have "pageSize (calculate (int_params p l t)) = int_num (clamped_limit l)"
    by (rule pageSize_int)
  moreover have "offset (calculate (int_params p l t))
      = int_num ((exact_currentPage p l t - 1) * clamped_limit l)"
    using assms by (rule offset_int)
  moreover have "clamped_limit l = min (max (nullish l 10) 1) 100"
    by (rule clamped_limit_def)
  ultimately show ?thesis by blast
qed

theorem calculate_offset_witness:
  "(20::int) < 2 ^ 53
   \<and> currentPage (calculate (int_params (Some 5) (Some 10) 20)) = int_num 2
   \<and> pageSize (calculate (int_params (Some 5) (Some 10) 20)) = int_num 10
   \<and> offset (calculate (int_params (Some 5) (Some 10) 20)) = int_num 10"
proof -
  let ?q = "calculate (int_params (Some 5) (Some 10) 20)"
  have cp: "currentPage ?q = int_num 2"
    by (simp add: currentPage_int exact_currentPage_def exact_totalPages_def clamped_limit_def
        nullish_def ceiling_divide_rat_numeral)
  from calculate_offset [of 20 "Some 5" "Some 10"] cp show ?thesis
    by (auto simp add: int_num_eq_iff nullish_def)
qed

theorem calculate_offset_counterexample:
  "currentPage (calculate (int_params (Some (2 ^ 53 + 2)) (Some 1) (2 ^ 53 + 4)))
     = int_num (2 ^ 53 + 2)
   \<and> pageSize (calculate (int_params (Some (2 ^ 53 + 2)) (Some 1) (2 ^ 53 + 4))) = int_num 1
   \<and> offset (calculate (int_params (Some (2 ^ 53 + 2)) (Some 1) (2 ^ 53 + 4))) = int_num (2 ^ 53)
   \<and> offset (calculate (int_params (Some (2 ^ 53 + 2)) (Some 1) (2 ^ 53 + 4)))
       \<noteq> int_num ((2 ^ 53 + 2 - 1) * 1)"
proof -
  let ?r = "calculate (int_params (Some (2 ^ 53 + 2)) (Some 1) (2 ^ 53 + 4))"
  have ps: "pageSize ?r = Fin 1"
    by (simp add: pageSize_int clamped_limit_def nullish_def int_num_def)
  have ti: "totalItems ?r = Fin 9007199254740996"
    by (simp add: totalItems_int int_num_def)
  have tp: "totalPages ?r = Fin 9007199254740996"
    by (simp only: totalPages_calculate ps ti)
      (simp add: round_double_2_53_plus_4 Math_ceil_def)
  have cp: "currentPage ?r = Fin 9007199254740994"
    by (simp only: currentPage_calculate tp)
      (simp add: int_params_def int_num_def nullish_def DEFAULT_PAGE_def Math_max_def Math_min_def)
  have off: "offset ?r = Fin 9007199254740992"
    using round_double_int [of "2 ^ 53"]
    by (simp only: offset_calculate cp ps)
      (simp add: num_sub_def negate_def round_double_2_53_plus_1 int_num_def)
  from ps cp off show ?thesis
    by (simp add: int_num_def)
qed

text \<open>
  C9, as the code has it: for every input whose \<open>totalItems\<close> is an integer below
  \<open>2^53\<close> and whose \<open>page\<close> and \<open>limit\<close> are left out or integers, when
  \<open>hasNextPage\<close> is true \<open>nextPage\<close> is \<open>currentPage + 1\<close>, and when
  \<open>hasPreviousPage\<close> is true \<open>previousPage\<close> is \<open>currentPage - 1\<close>.
\<close>

theorem calculate_adjacent:
  assumes "t < 2 ^ 53"
  shows "\<exists>cp.
      currentPage (calculate (int_params p l t)) = int_num cp
    \<and> (hasNextPage (calculate (int_params p l t))
         \<longrightarrow> nextPage (calculate (int_params p l t)) = Some (int_num (cp + 1)))
    \<and> (hasPreviousPage (calculate (int_params p l t))
         \<longrightarrow> previousPage (calculate (int_params p l t)) = Some (int_num (cp - 1)))"
proof -
  let ?r = "calculate (int_params p l t)"
  let ?cp = "exact_currentPage p l t"
  have "currentPage ?r = int_num ?cp"
    using assms by (rule currentPage_int)
  moreover have "hasNextPage ?r \<longrightarrow> nextPage ?r = Some (int_num (?cp + 1))"
  proof
    assume h: "hasNextPage ?r"
    then have "?cp < exact_totalPages l t"
      by (simp only: hasNextPage_int [OF assms])
    with assms have "num_add (currentPage ?r) (Fin 1) = int_num (?cp + 1)"
      by (rule next_int)
    with h show "nextPage ?r = Some (int_num (?cp + 1))"
      by (simp add: nextPage_calculate)
  qed
  moreover have "hasPreviousPage ?r \<longrightarrow> previousPage ?r = Some (int_num (?cp - 1))"
    by (simp add: previousPage_calculate previous_int [OF assms])
  ultimately show ?thesis by blast
qed

theorem calculate_adjacent_witness:
  "(45::int) < 2 ^ 53
   \<and> currentPage (calculate (int_params (Some 2) (Some 10) 45)) = int_num 2
   \<and> hasNextPage (calculate (int_params (Some 2) (Some 10) 45))
   \<and> nextPage (calculate (int_params (Some 2) (Some 10) 45)) = Some (int_num 3)
   \<and> hasPreviousPage (calculate (int_params (Some 2) (Some 10) 45))
   \<and> previousPage (calculate (int_params (Some 2) (Some 10) 45)) = Some (int_num 1)"
proof -
  let ?q = "calculate (int_params (Some 2) (Some 10) 45)"
  have tp: "exact_totalPages (Some 10) 45 = 5"
    by (simp add: exact_totalPages_def clamped_limit_def nullish_def ceiling_divide_rat_numeral)
  have cp: "exact_currentPage (Some 2) (Some 10) 45 = 2"
    by (simp add: exact_currentPage_def tp nullish_def)
  have c: "currentPage ?q = int_num 2"
    by (simp add: currentPage_int cp)
  have flags: "hasNextPage ?q" "hasPreviousPage ?q"
    by (simp_all add: hasNextPage_int hasPreviousPage_int cp tp)
  from calculate_adjacent [of 45 "Some 2" "Some 10"] c flags show ?thesis
    by (auto simp add: int_num_eq_iff)
qed

theorem calculate_adjacent_counterexample:
  "hasNextPage (calculate (int_params (Some (2 ^ 53)) (Some 1) (2 ^ 53 + 2)))
   \<and> currentPage (calculate (int_params (Some (2 ^ 53)) (Some 1) (2 ^ 53 + 2))) = int_num (2 ^ 53)
   \<and> nextPage (calculate (int_params (Some (2 ^ 53)) (Some 1) (2 ^ 53 + 2)))
       = Some (int_num (2 ^ 53))
   \<and> nextPage (calculate (int_params (Some (2 ^ 53)) (Some 1) (2 ^ 53 + 2)))
       \<noteq> Some (int_num (2 ^ 53 + 1))"
proof -
  let ?r = "calculate (int_params (Some (2 ^ 53)) (Some 1) (2 ^ 53 + 2))"
  have ps: "pageSize ?r = Fin 1"
    by (simp add: pageSize_int clamped_limit_def nullish_def int_num_def)
  have ti: "totalItems ?r = Fin 9007199254740994"
    by (simp add: totalItems_int int_num_def)
  have tp: "totalPages ?r = Fin 9007199254740994"
    by (simp only: totalPages_calculate ps ti)
      (simp add: round_double_2_53_plus_2 Math_ceil_def)
  have cp: "currentPage ?r = Fin 9007199254740992"
    by (simp only: currentPage_calculate tp)
      (simp add: int_params_def int_num_def nullish_def DEFAULT_PAGE_def Math_max_def Math_min_def)
  have h: "hasNextPage ?r"
    by (simp only: hasNextPage_calculate cp tp) simp
  have n: "nextPage ?r = Some (Fin 9007199254740992)"
    using h by (simp only: nextPage_calculate cp) (simp add: round_double_2_53_plus_1)
  from h cp n show ?thesis
    by (simp add: int_num_def)
qed

section \<open>Properties of \<open>getPageNumbers\<close>\<close>

subsection \<open>Arrays within their length\<close>

lemma push_ok: "int (length xs) < 2 ^ 32 - 1 \<Longrightarrow> push xs x = Inr (xs @ [x])"
  by (simp add: push_def)

lemma push_full: "\<not> int (length xs) < 2 ^ 32 - 1 \<Longrightarrow> push xs x = Inl RangeError"
  by (simp add: push_def)

lemma and_then_Inr: "and_then (Inr v) f = f v"
  by (simp add: and_then_def)

lemma and_then_Inl: "and_then (Inl e) f = Inl e"
  by (simp add: and_then_def)

text \<open>The loop over integers below \<open>2^53\<close>, on an array with room for them.\<close>

lemma push_range_ints:
  assumes "- (2 ^ 53) \<le> s" and "e < 2 ^ 53"
    and "int (length pages) + (e - s + 1) \<le> 2 ^ 32 - 1"
  shows "push_range (int_num s) (int_num e) pages = Inr (pages @ map spec_page [s..e])"
  using assms
proof (induction "nat (e + 1 - s)" arbitrary: s pages)
  case 0
  then have "e < s" by simp
  then show ?case
    by (simp add: push_range.simps [of "int_num s"] num_le_int)
next
  case (Suc n)
  then have le: "s \<le> e" by simp
  with Suc.prems have room: "int (length pages) < 2 ^ 32 - 1" by simp
  from le Suc.prems have "\<bar>s + 1\<bar> \<le> 2 ^ 53" by simp
  then have next_i: "num_add (int_num s) (Fin 1) = int_num (s + 1)"
    by (simp add: Fin_as_int_num num_add_int)
  have "push_range (int_num s) (int_num e) pages
      = push_range (int_num (s + 1)) (int_num e) (pages @ [Num (int_num s)])"
    using le by (simp add: push_range.simps [of "int_num s"] num_le_int push_ok [OF room] next_i)
  also have "\<dots> = Inr ((pages @ [Num (int_num s)]) @ map spec_page [s + 1..e])"
  proof (rule Suc.hyps(1))
    show "n = nat (e + 1 - (s + 1))" using Suc.hyps(2) by simp
    show "- (2 ^ 53) \<le> s + 1" using Suc.prems(1) by simp
    show "e < 2 ^ 53" by (rule Suc.prems(2))
    show "int (length (pages @ [Num (int_num s)])) + (e - (s + 1) + 1) \<le> 2 ^ 32 - 1"
      using Suc.prems(3) by simp
  qed
  also have "\<dots> = Inr (pages @ map spec_page [s..e])"
    using le by (simp add: upto_rec1 [of s e] spec_page_def)
  finally show ?case .
qed

text \<open>Once \<open>i + 1\<close> rounds back to \<open>i\<close> the loop fills the array, and \<open>push\<close> throws.\<close>

lemma push_range_stalled:
  assumes "num_le i stop" and "num_add i (Fin 1) = i"
  shows "push_range i stop pages = Inl RangeError"
proof (induction pages rule: measure_induct_rule [where f = "\<lambda>pages. nat (2 ^ 32 - int (length pages))"])
  case (less pages)
  show ?case
  proof (cases "int (length pages) < 2 ^ 32 - 1")
    case True
    then have "nat (2 ^ 32 - int (length (pages @ [Num i]))) < nat (2 ^ 32 - int (length pages))"
      by simp
    then have "push_range i stop (pages @ [Num i]) = Inl RangeError"
      by (rule less.IH)
    then show ?thesis
      using assms by (simp add: push_range.simps [of i stop pages] push_ok [OF True])
  next
    case False
    then show ?thesis
      using assms(1) by (simp add: push_range.simps [of i stop pages] push_full)
  qed
qed

lemma ToLength_int: "n < 2 ^ 53 \<Longrightarrow> ToLength (int_num n) = max n 0"
  by (simp add: ToLength_def int_num_def max_def min_def)

lemma Array_from_ints:
  assumes "n < 2 ^ 32"
  shows "Array_from (int_num n) (\<lambda>i. Num (num_add i (Fin 1))) = Inr (map spec_page [1..n])"
proof -
  from assms have len: "ToLength (int_num n) = max n 0"
    by (intro ToLength_int) simp
  have "map (\<lambda>i. Num (num_add (Fin (of_nat i)) (Fin 1))) [0..<nat n] = map spec_page [1..n]"
  proof (rule nth_equalityI)
    show "length (map (\<lambda>i. Num (num_add (Fin (of_nat i)) (Fin 1))) [0..<nat n])
        = length (map spec_page [1..n])"
      by simp
  next
    fix k
    assume "k < length (map (\<lambda>i. Num (num_add (Fin (of_nat i)) (Fin 1))) [0..<nat n])"
    then have k: "k < nat n" by simp
    then have "1 + int k \<le> n" by simp
    then have nth: "[1..n] ! k = 1 + int k" by (rule nth_upto)
    from k assms have "\<bar>int k + 1\<bar> \<le> 2 ^ 53" by simp
    then have "num_add (int_num (int k)) (int_num 1) = int_num (int k + 1)"
      by (rule num_add_int)
    then have "num_add (Fin (of_nat k)) (Fin 1) = int_num (1 + int k)"
      by (simp add: int_num_def add.commute)
    with k nth show "map (\<lambda>i. Num (num_add (Fin (of_nat i)) (Fin 1))) [0..<nat n] ! k
        = map spec_page [1..n] ! k"
      by (simp add: spec_page_def)
  qed
  moreover from assms have "\<not> 2 ^ 32 \<le> max n 0" by simp
  moreover have "nat (max n 0) = nat n" by simp
  ultimately show ?thesis
    by (simp add: Array_from_def len Let_def del: max.bounded_iff)
qed

subsection \<open>The window on integers below \<open>2^53\<close>\<close>

lemma halfVisible_int:
  assumes "\<bar>mv\<bar> \<le> 2 ^ 53"
  shows "Math_floor (num_div (int_num mv) (Fin 2)) = int_num (mv div 2)"
proof -
  have "num_div (int_num mv) (Fin 2) = Fin (of_int mv / 2)"
    using round_double_half [OF assms] by (simp add: int_num_def)
  moreover have "\<lfloor>rat_of_int mv / 2\<rfloor> = mv div 2"
    using floor_divide_of_int_eq [of mv 2, where ?'a = rat] by simp
  ultimately show ?thesis
    by (simp add: Math_floor_def int_num_def)
qed

lemma visible_window_ints:
  assumes cp: "\<bar>cp\<bar> < 2 ^ 53" and tp: "\<bar>tp\<bar> < 2 ^ 53" and mv: "0 \<le> mv" "mv < tp"
  shows "visible_window (int_num cp) (int_num tp) (int_num mv)
    = (int_num (fst (spec_window cp tp mv)), int_num (snd (spec_window cp tp mv)))"
proof -
  let ?h = "mv div 2"
  from mv tp have mv_small: "\<bar>mv\<bar> \<le> 2 ^ 53" by simp
  have h: "Math_floor (num_div (int_num mv) (Fin 2)) = int_num ?h"
    using mv_small by (rule halfVisible_int)
  have h_range: "0 \<le> ?h" "?h \<le> mv" using mv(1) by simp_all
  have last: "num_sub (int_num tp) (Fin 1) = int_num (tp - 1)"
    using tp by (simp add: Fin_as_int_num num_sub_int)
  have s0: "Math_max (num_sub (int_num cp) (int_num ?h)) (Fin 2) = int_num (max (cp - ?h) 2)"
    unfolding Fin_as_int_num using cp h_range by (intro Math_max_num_sub_int) simp_all
  have e0: "Math_min (num_add (int_num cp) (int_num ?h)) (int_num (tp - 1))
      = int_num (min (cp + ?h) (tp - 1))"
    using cp tp h_range by (intro Math_min_num_add_int) simp_all
  have e1: "Math_min (int_num mv) (int_num (tp - 1)) = int_num (min mv (tp - 1))"
    by (rule Math_min_int)
  from mv tp have "\<bar>tp - mv\<bar> \<le> 2 ^ 53" by simp
  then have "num_sub (int_num tp) (int_num mv) = int_num (tp - mv)"
    by (rule num_sub_int)
  moreover from mv tp have "\<bar>tp - mv + 1\<bar> \<le> 2 ^ 53" by simp
  then have "num_add (int_num (tp - mv)) (int_num 1) = int_num (tp - mv + 1)"
    by (rule num_add_int)
  ultimately have s2: "Math_max (Fin 2) (num_add (num_sub (int_num tp) (int_num mv)) (Fin 1))
      = int_num (max 2 (tp - mv + 1))"
    by (simp add: Fin_as_int_num Math_max_int)
  show ?thesis
    unfolding visible_window_def Let_def h last s0 e0 e1 s2 spec_window_def
    by (simp add: Fin_as_int_num num_le_int)
qed

lemma spec_window_bounds:
  "2 \<le> fst (spec_window cur tot maxVis) \<and> snd (spec_window cur tot maxVis) \<le> tot - 1"
  by (simp add: spec_window_def Let_def)

text \<open>The window holds at most \<open>maxVisible + 1\<close> pages.\<close>

lemma spec_window_width:
  assumes "0 \<le> maxVis"
  shows "snd (spec_window cur tot maxVis) - fst (spec_window cur tot maxVis) \<le> maxVis"
proof -
  have "2 * (maxVis div 2) \<le> maxVis" by simp
  then show ?thesis
    using assms by (auto simp add: spec_window_def Let_def min_def max_def)
qed

subsection \<open>The sequence is that of the algorithm\<close>

lemma push_if:
  "int (length xs) < 2 ^ 32 - 1
    \<Longrightarrow> (if c then push xs x else Inr xs) = Inr (xs @ (if c then [x] else []))"
  by (simp add: push_ok)

lemma getPageNumbers_full:
  assumes "tp \<le> mv" and "mv < 2 ^ 32"
  shows "getPageNumbers (int_num cp) (int_num tp) (Some (int_num mv)) = Inr (map spec_page [1..tp])"
proof -
  from assms have "tp < 2 ^ 32" by simp
  then have "Array_from (int_num tp) (\<lambda>i. Num (num_add i (Fin 1))) = Inr (map spec_page [1..tp])"
    by (rule Array_from_ints)
  with assms(1) show ?thesis
    by (simp add: getPageNumbers_def nullish_def num_le_int)
qed

lemma getPageNumbers_compressed:
  assumes cp: "\<bar>cp\<bar> < 2 ^ 53" and tp: "\<bar>tp\<bar> < 2 ^ 53"
    and mv: "0 \<le> mv" "mv < tp" "mv \<le> 2 ^ 32 - 6"
  shows "getPageNumbers (int_num cp) (int_num tp) (Some (int_num mv)) =
    Inr ([spec_page 1]
      @ (if 2 < fst (spec_window cp tp mv) then [spec_ellipsis] else [])
      @ map spec_page [fst (spec_window cp tp mv)..snd (spec_window cp tp mv)]
      @ (if snd (spec_window cp tp mv) < tp - 1 then [spec_ellipsis] else [])
      @ (if 1 < tp then [spec_page tp] else []))"
proof -
  let ?s = "fst (spec_window cp tp mv)"
  let ?e = "snd (spec_window cp tp mv)"
  let ?p1 = "[spec_page 1]"
  let ?p2 = "?p1 @ (if 2 < ?s then [spec_ellipsis] else [])"
  let ?p3 = "?p2 @ map spec_page [?s..?e]"
  let ?p4 = "?p3 @ (if ?e < tp - 1 then [spec_ellipsis] else [])"
  have window: "visible_window (int_num cp) (int_num tp) (int_num mv) = (int_num ?s, int_num ?e)"
    using cp tp mv(1,2) by (rule visible_window_ints)
  have bounds: "2 \<le> ?s" "?e \<le> tp - 1"
    using spec_window_bounds [of cp tp mv] by simp_all
  have width: "?e - ?s \<le> mv"
    using mv(1) by (rule spec_window_width)
  have last: "num_sub (int_num tp) (Fin 1) = int_num (tp - 1)"
    using tp by (simp add: Fin_as_int_num num_sub_int)
  have len2: "int (length ?p2) \<le> 2" by simp
  have step1: "push [] (Num (Fin 1)) = Inr ?p1"
    by (simp add: push_ok spec_page_def int_num_def)
  have step2: "(if num_lt (Fin 2) (int_num ?s) then push ?p1 (Str ''...'') else Inr ?p1) = Inr ?p2"
    by (simp add: push_ok Fin_as_int_num num_lt_int spec_ellipsis_def)
  have step3: "push_range (int_num ?s) (int_num ?e) ?p2 = Inr ?p3"
  proof (rule push_range_ints)
    show "- (2 ^ 53) \<le> ?s" using bounds(1) by simp
    show "?e < 2 ^ 53" using bounds(2) tp by simp
    show "int (length ?p2) + (?e - ?s + 1) \<le> 2 ^ 32 - 1"
      using len2 width mv(3) by linarith
  qed
  have len3: "int (length ?p3) \<le> mv + 3"
  proof -
    have "int (length ?p3) = int (length ?p2) + int (nat (?e - ?s + 1))" by simp
    also have "\<dots> \<le> 2 + (mv + 1)"
      using len2 width mv(1) by (intro add_mono) simp_all
    finally show ?thesis by simp
  qed
  then have room3: "int (length ?p3) < 2 ^ 32 - 1" using mv(3) by simp
  have step4: "(if num_lt (int_num ?e) (int_num (tp - 1)) then push ?p3 (Str ''...'') else Inr ?p3)
      = Inr ?p4"
    using push_if [OF room3, of "?e < tp - 1" "Str ''...''"]
    by (simp add: num_lt_int spec_ellipsis_def)
  have "int (length ?p4) \<le> int (length ?p3) + 1" by simp
  with len3 mv(3) have room4: "int (length ?p4) < 2 ^ 32 - 1" by linarith
  have step5: "(if num_lt (Fin 1) (int_num tp) then push ?p4 (Num (int_num tp)) else Inr ?p4)
      = Inr (?p4 @ (if 1 < tp then [spec_page tp] else []))"
    using push_if [OF room4, of "1 < tp" "Num (int_num tp)"]
    by (simp add: Fin_as_int_num num_lt_int spec_page_def)
  have "\<not> num_le (int_num tp) (int_num mv)"
    using mv(2) by (simp add: num_le_int)
  then have "getPageNumbers (int_num cp) (int_num tp) (Some (int_num mv)) =
      and_then (push [] (Num (Fin 1))) (\<lambda>pages.
      and_then (if num_lt (Fin 2) (int_num ?s) then push pages (Str ''...'') else Inr pages) (\<lambda>pages.
      and_then (push_range (int_num ?s) (int_num ?e) pages) (\<lambda>pages.
      and_then (if num_lt (int_num ?e) (int_num (tp - 1))
                then push pages (Str ''...'') else Inr pages) (\<lambda>pages.
      (if num_lt (Fin 1) (int_num tp) then push pages (Num (int_num tp)) else Inr pages)))))"
    by (simp add: getPageNumbers_def nullish_def window last Let_def)
  also have "\<dots> = Inr (?p4 @ (if 1 < tp then [spec_page tp] else []))"
    by (simp only: step1 and_then_Inr step2 step3 step4 step5)
  finally show ?thesis by simp
qed

lemma getPageNumbers_ints:
  assumes "\<bar>cp\<bar> < 2 ^ 53" and "\<bar>tp\<bar> < 2 ^ 53" and "0 \<le> mv" and "mv \<le> 2 ^ 32 - 6"
  shows "getPageNumbers (int_num cp) (int_num tp) (Some (int_num mv))
    = Inr (spec_pageNumbers cp tp mv)"
proof (cases "tp \<le> mv")
  case True
  moreover from assms(4) have "mv < 2 ^ 32" by simp
  ultimately show ?thesis
    by (simp add: getPageNumbers_full spec_pageNumbers_def)
next
  case False
  then have "mv < tp" by simp
  with assms show ?thesis
    by (simp add: getPageNumbers_compressed spec_pageNumbers_def case_prod_unfold Let_def)
qed

lemma getPageNumbers_default:
  "getPageNumbers cp tp None = getPageNumbers cp tp (Some (Fin 5))"
  by (simp add: getPageNumbers_def nullish_def)

subsection \<open>Beyond \<open>2^53\<close>, and the claims about \<open>getPageNumbers\<close>\<close>

lemma round_double_numeral:
  "(numeral n :: int) \<le> 2 ^ 53 \<Longrightarrow> round_double (numeral n) = Fin (numeral n)"
  using round_double_int [of "numeral n"] by (simp add: int_num_def)

lemma round_double_5_div_2: "round_double (5 / 2) = Fin (5 / 2)"
  using round_double_half [of 5] by simp

lemma round_double_2_53_plus_6: "round_double 9007199254740998 = Fin 9007199254740998"
  using round_double_eval [of 53 9007199254740998 4503599627370499]
  by (simp add: round_half_even_def Let_def floor_divide_rat_numeral)

lemmas window_evaluation =
  visible_window_def Let_def int_num_def num_sub_def negate_def num_le_def
  Math_floor_def Math_max_def Math_min_def floor_divide_rat_numeral
  round_double_numeral round_double_5_div_2 round_double_2_53_plus_1 round_double_2_53_plus_2
  round_double_2_53_plus_3 round_double_2_53_plus_4 round_double_2_53_plus_6

lemma window_at_2_53:
  "visible_window (Fin 9007199254740992) (Fin 9007199254740994) (Fin 5)
    = (Fin 9007199254740990, Fin 9007199254740992)"
  by (simp add: window_evaluation)

lemma window_above_2_53:
  "visible_window (Fin 9007199254740996) (Fin 9007199254740996) (Fin 5)
    = (Fin 9007199254740992, Fin 9007199254740996)"
  by (simp add: window_evaluation)

lemma stalled_at_2_53:
  assumes "num_le (Fin 9007199254740992) stop"
  shows "push_range (Fin 9007199254740992) stop pages = Inl RangeError"
  using assms by (rule push_range_stalled) (simp add: round_double_2_53_plus_1)

lemma loop_to_2_53:
  "push_range (Fin 9007199254740990) (Fin 9007199254740992) [Num (Fin 1), Str ''...'']
    = Inl RangeError"
proof -
  have stop: "num_le (Fin 9007199254740992) (Fin 9007199254740992)"
    by (simp add: num_le_def)
  have "push_range (Fin 9007199254740990) (Fin 9007199254740992) [Num (Fin 1), Str ''...'']
    = push_range (Fin 9007199254740991) (Fin 9007199254740992)
        [Num (Fin 1), Str ''...'', Num (Fin 9007199254740990)]"
    by (simp add: push_range.simps [of "Fin 9007199254740990"] num_le_def push_def
        round_double_numeral)
  also have "\<dots> = push_range (Fin 9007199254740992) (Fin 9007199254740992)
        [Num (Fin 1), Str ''...'', Num (Fin 9007199254740990), Num (Fin 9007199254740991)]"
    by (simp add: push_range.simps [of "Fin 9007199254740991"] num_le_def push_def
        round_double_numeral)
  also have "\<dots> = Inl RangeError"
    using stop by (rule stalled_at_2_53)
  finally show ?thesis .
qed

lemma numbers_of_append: "numbers_of (xs @ ys) = numbers_of xs @ numbers_of ys"
  by (induction xs rule: numbers_of.induct) simp_all

lemma numbers_of_pages: "numbers_of (map spec_page ns) = map int_num ns"
  by (induction ns) (simp_all add: spec_page_def)

lemma increasing_numbers: "sorted_wrt num_lt (map int_num ns) = sorted_wrt (<) ns"
  by (simp add: sorted_wrt_map num_lt_int)

lemma distinct_numbers: "distinct (map int_num ns) = distinct ns"
  by (simp add: distinct_map inj_on_def int_num_eq_iff)

lemma numbers_of_spec_pageNumbers:
  "numbers_of (spec_pageNumbers cp tp mv) =
    map int_num (if tp \<le> mv then [1..tp]
      else 1 # [fst (spec_window cp tp mv)..snd (spec_window cp tp mv)]
           @ (if 1 < tp then [tp] else []))"
  by (simp add: spec_pageNumbers_def Let_def case_prod_unfold numbers_of_append
      numbers_of_pages spec_page_def spec_ellipsis_def)

text \<open>
  C3, as the code has it: for all integers \<open>currentPage\<close> and \<open>totalPages\<close> of magnitude
  below \<open>2^53\<close> and every integer \<open>maxVisible\<close> from 0 to \<open>2^32 - 6\<close> (5 when it is
  left out), \<open>getPageNumbers\<close> returns exactly the sequence of the algorithm of section
  4.2: the full list \<open>1..totalPages\<close> when \<open>totalPages \<le> maxVisible\<close>; otherwise page 1,
  an ellipsis iff the corrected start exceeds 2, the window \<open>[start, end]\<close> corrected near
  the start and then near the end, an ellipsis iff \<open>end < totalPages - 1\<close>, and
  \<open>totalPages\<close> iff \<open>totalPages > 1\<close>. In particular
  \<open>getPageNumbers(50, 100, 5) = [1, "...", 48, 49, 50, 51, 52, "...", 100]\<close>.
  (The longest sequence has \<open>maxVisible + 5\<close> entries, and an array holds \<open>2^32 - 1\<close>.)
\<close>

theorem getPageNumbers_refines_spec:
  assumes "\<bar>cp\<bar> < 2 ^ 53" and "\<bar>tp\<bar> < 2 ^ 53" and "0 \<le> mv" and "mv \<le> 2 ^ 32 - 6"
  shows "getPageNumbers (int_num cp) (int_num tp) (Some (int_num mv))
      = Inr (spec_pageNumbers cp tp mv)
    \<and> getPageNumbers (int_num cp) (int_num tp) None = Inr (spec_pageNumbers cp tp 5)
    \<and> getPageNumbers (int_num 50) (int_num 100) (Some (int_num 5))
      = Inr [Num (int_num 1), Str ''...'', Num (int_num 48), Num (int_num 49), Num (int_num 50),
             Num (int_num 51), Num (int_num 52), Str ''...'', Num (int_num 100)]"
proof (intro conjI)
  show "getPageNumbers (int_num cp) (int_num tp) (Some (int_num mv))
      = Inr (spec_pageNumbers cp tp mv)"
    using assms by (rule getPageNumbers_ints)
  have "getPageNumbers (int_num cp) (int_num tp) (Some (int_num 5))
      = Inr (spec_pageNumbers cp tp 5)"
    using assms(1,2) by (rule getPageNumbers_ints) simp_all
  then show "getPageNumbers (int_num cp) (int_num tp) None = Inr (spec_pageNumbers cp tp 5)"
    by (simp add: getPageNumbers_default Fin_as_int_num)
  have "getPageNumbers (int_num 50) (int_num 100) (Some (int_num 5))
      = Inr (spec_pageNumbers 50 100 5)"
    by (rule getPageNumbers_ints) simp_all
  then show "getPageNumbers (int_num 50) (int_num 100) (Some (int_num 5))
      = Inr [Num (int_num 1), Str ''...'', Num (int_num 48), Num (int_num 49), Num (int_num 50),
             Num (int_num 51), Num (int_num 52), Str ''...'', Num (int_num 100)]"
    by (simp add: spec_pageNumbers_def spec_window_def spec_page_def spec_ellipsis_def Let_def)
qed

theorem getPageNumbers_refines_spec_witness:
  "\<bar>1::int\<bar> < 2 ^ 53 \<and> \<bar>3::int\<bar> < 2 ^ 53 \<and> (0::int) \<le> 5 \<and> (5::int) \<le> 2 ^ 32 - 6
   \<and> getPageNumbers (int_num 1) (int_num 3) (Some (int_num 5))
       = Inr [Num (int_num 1), Num (int_num 2), Num (int_num 3)]
   \<and> getPageNumbers (int_num 1) (int_num 3) None
       = Inr [Num (int_num 1), Num (int_num 2), Num (int_num 3)]"
proof -
  have "spec_pageNumbers 1 3 5 = [Num (int_num 1), Num (int_num 2), Num (int_num 3)]"
    by (simp add: spec_pageNumbers_def spec_page_def upto.simps [of 1])
  with getPageNumbers_refines_spec [of 1 3 5] show ?thesis
    by simp
qed

theorem getPageNumbers_refines_spec_counterexample:
  "getPageNumbers (int_num (2 ^ 53)) (int_num (2 ^ 53 + 2)) (Some (int_num 5)) = Inl RangeError
   \<and> getPageNumbers (int_num (2 ^ 53)) (int_num (2 ^ 53 + 2)) (Some (int_num 5))
       \<noteq> Inr (spec_pageNumbers (2 ^ 53) (2 ^ 53 + 2) 5)
   \<and> getPageNumbers (int_num 1) (int_num (2 ^ 32)) (Some (int_num (2 ^ 32))) = Inl RangeError
   \<and> getPageNumbers (int_num 1) (int_num (2 ^ 32)) (Some (int_num (2 ^ 32)))
       \<noteq> Inr (spec_pageNumbers 1 (2 ^ 32) (2 ^ 32))"
proof -
  have "\<not> num_le (int_num (2 ^ 53 + 2)) (int_num 5)"
    by (simp add: num_le_int)
  then have "getPageNumbers (int_num (2 ^ 53)) (int_num (2 ^ 53 + 2)) (Some (int_num 5))
    = and_then (push [] (Num (Fin 1))) (\<lambda>pages.
      and_then (if num_lt (Fin 2) (Fin 9007199254740990)
                then push pages (Str ''...'') else Inr pages) (\<lambda>pages.
      and_then (push_range (Fin 9007199254740990) (Fin 9007199254740992) pages) (\<lambda>pages.
      and_then (if num_lt (Fin 9007199254740992) (num_sub (int_num (2 ^ 53 + 2)) (Fin 1))
                then push pages (Str ''...'') else Inr pages) (\<lambda>pages.
      (if num_lt (Fin 1) (int_num (2 ^ 53 + 2))
       then push pages (Num (int_num (2 ^ 53 + 2))) else Inr pages)))))"
    by (simp add: getPageNumbers_def nullish_def int_num_def window_at_2_53 Let_def)
  also have "\<dots> = Inl RangeError"
    by (simp add: push_def and_then_Inr and_then_Inl loop_to_2_53)
  finally have stall: "getPageNumbers (int_num (2 ^ 53)) (int_num (2 ^ 53 + 2)) (Some (int_num 5))
    = Inl RangeError" .
  have "ToLength (int_num (2 ^ 32)) = 2 ^ 32"
    by (simp add: ToLength_def int_num_def)
  then have full: "getPageNumbers (int_num 1) (int_num (2 ^ 32)) (Some (int_num (2 ^ 32)))
    = Inl RangeError"
    by (simp add: getPageNumbers_def nullish_def num_le_int Array_from_def)
  from stall full show ?thesis by simp
qed

text \<open>
  C10, as the code has it: for every integer \<open>currentPage\<close> of magnitude below \<open>2^53\<close>,
  every integer \<open>totalPages\<close> with \<open>0 \<le> totalPages < 2^53\<close> and every integer
  \<open>maxVisible\<close> from 1 to \<open>2^32 - 6\<close>, \<open>getPageNumbers\<close> returns a sequence whose numeric
  entries are strictly increasing, hence without duplicates; in the compressed case
  (\<open>totalPages > maxVisible\<close>) they are page 1, the window and \<open>totalPages\<close>, and the
  window lies within \<open>[2, totalPages - 1]\<close>.
\<close>

theorem getPageNumbers_increasing:
  assumes "\<bar>cp\<bar> < 2 ^ 53" and "0 \<le> tp" and "tp < 2 ^ 53" and "1 \<le> mv" and "mv \<le> 2 ^ 32 - 6"
  shows "\<exists>pages.
      getPageNumbers (int_num cp) (int_num tp) (Some (int_num mv)) = Inr pages
    \<and> sorted_wrt num_lt (numbers_of pages)
    \<and> distinct (numbers_of pages)
    \<and> (mv < tp \<longrightarrow>
        (\<exists>s e. visible_window (int_num cp) (int_num tp) (int_num mv) = (int_num s, int_num e)
          \<and> 2 \<le> s \<and> e \<le> tp - 1
          \<and> numbers_of pages = int_num 1 # map int_num [s..e] @ [int_num tp]))"
proof -
  let ?pages = "spec_pageNumbers cp tp mv"
  let ?s = "fst (spec_window cp tp mv)"
  let ?e = "snd (spec_window cp tp mv)"
  from assms have tp: "\<bar>tp\<bar> < 2 ^ 53" and mv: "0 \<le> mv" by simp_all
  have result: "getPageNumbers (int_num cp) (int_num tp) (Some (int_num mv)) = Inr ?pages"
    using assms(1) tp mv assms(5) by (rule getPageNumbers_ints)
  have bounds: "2 \<le> ?s" "?e \<le> tp - 1"
    using spec_window_bounds [of cp tp mv] by simp_all
  have numbers: "numbers_of ?pages =
      map int_num (if tp \<le> mv then [1..tp] else 1 # [?s..?e] @ (if 1 < tp then [tp] else []))"
    by (rule numbers_of_spec_pageNumbers)
  have sorted: "sorted_wrt (<) (if tp \<le> mv then [1..tp] else 1 # [?s..?e] @ (if 1 < tp then [tp] else []))"
  proof (cases "tp \<le> mv")
    case True
    then show ?thesis by simp
  next
    case False
    with assms(4) have "1 < tp" by simp
    with False bounds show ?thesis
      by (auto simp add: sorted_wrt_append)
  qed
  then have increasing: "sorted_wrt num_lt (numbers_of ?pages)"
    by (simp only: numbers increasing_numbers)
  from sorted have "distinct (if tp \<le> mv then [1..tp] else 1 # [?s..?e] @ (if 1 < tp then [tp] else []))"
    by (simp only: strict_sorted_iff)
  then have distinct: "distinct (numbers_of ?pages)"
    by (simp only: numbers distinct_numbers)
  have window: "\<exists>s e. visible_window (int_num cp) (int_num tp) (int_num mv) = (int_num s, int_num e)
      \<and> 2 \<le> s \<and> e \<le> tp - 1
      \<and> numbers_of ?pages = int_num 1 # map int_num [s..e] @ [int_num tp]" if "mv < tp"
  proof -
    from that assms(4) have "1 < tp" by simp
    with that have "numbers_of ?pages = int_num 1 # map int_num [?s..?e] @ [int_num tp]"
      by (simp add: numbers)
    moreover have "visible_window (int_num cp) (int_num tp) (int_num mv) = (int_num ?s, int_num ?e)"
      using assms(1) tp mv that by (rule visible_window_ints)
    ultimately show ?thesis using bounds by blast
  qed
  from result increasing distinct window show ?thesis by blast
qed

theorem getPageNumbers_increasing_witness:
  "\<bar>50::int\<bar> < 2 ^ 53 \<and> (0::int) \<le> 100 \<and> (100::int) < 2 ^ 53 \<and> (1::int) \<le> 5
   \<and> (5::int) \<le> 2 ^ 32 - 6 \<and> (5::int) < 100
   \<and> (\<exists>pages. getPageNumbers (int_num 50) (int_num 100) (Some (int_num 5)) = Inr pages
        \<and> sorted_wrt num_lt (numbers_of pages)
        \<and> numbers_of pages = map int_num [1, 48, 49, 50, 51, 52, 100])
   \<and> visible_window (int_num 50) (int_num 100) (int_num 5) = (int_num 48, int_num 52)"
proof -
  have w: "visible_window (int_num 50) (int_num 100) (int_num 5) = (int_num 48, int_num 52)"
    using visible_window_ints [of 50 100 5] by (simp add: spec_window_def Let_def)
  from getPageNumbers_increasing [of 50 100 5] obtain pages s e
    where p: "getPageNumbers (int_num 50) (int_num 100) (Some (int_num 5)) = Inr pages"
      "sorted_wrt num_lt (numbers_of pages)"
      "visible_window (int_num 50) (int_num 100) (int_num 5) = (int_num s, int_num e)"
      "numbers_of pages = int_num 1 # map int_num [s..e] @ [int_num 100]"
    by auto
  from p(3) w have "s = 48" "e = 52" by (simp_all add: int_num_eq_iff)
  with p(4) have "numbers_of pages = map int_num [1, 48, 49, 50, 51, 52, 100]" by simp
  with p(1,2) w show ?thesis by simp
qed

theorem getPageNumbers_increasing_counterexample:
  "visible_window (int_num (2 ^ 53 + 4)) (int_num (2 ^ 53 + 4)) (int_num 5)
     = (int_num (2 ^ 53), int_num (2 ^ 53 + 4))
   \<and> getPageNumbers (int_num (2 ^ 53 + 4)) (int_num (2 ^ 53 + 4)) (Some (int_num 5))
     = Inl RangeError"
proof -
  have stop: "num_le (Fin 9007199254740992) (Fin 9007199254740996)"
    by (simp add: num_le_def)
  have "\<not> num_le (int_num (2 ^ 53 + 4)) (int_num 5)"
    by (simp add: num_le_int)
  then have "getPageNumbers (int_num (2 ^ 53 + 4)) (int_num (2 ^ 53 + 4)) (Some (int_num 5))
    = and_then (push [] (Num (Fin 1))) (\<lambda>pages.
      and_then (if num_lt (Fin 2) (Fin 9007199254740992)
                then push pages (Str ''...'') else Inr pages) (\<lambda>pages.
      and_then (push_range (Fin 9007199254740992) (Fin 9007199254740996) pages) (\<lambda>pages.
      and_then (if num_lt (Fin 9007199254740996) (num_sub (int_num (2 ^ 53 + 4)) (Fin 1))
                then push pages (Str ''...'') else Inr pages) (\<lambda>pages.
      (if num_lt (Fin 1) (int_num (2 ^ 53 + 4))
       then push pages (Num (int_num (2 ^ 53 + 4))) else Inr pages)))))"
    by (simp add: getPageNumbers_def nullish_def int_num_def window_above_2_53 Let_def)
  also have "\<dots> = Inl RangeError"
    by (simp add: push_def and_then_Inr and_then_Inl stalled_at_2_53 [OF stop])
  finally show ?thesis
    by (simp add: int_num_def window_above_2_53)
qed

section \<open>Properties of \<open>parseSearchParams\<close>\<close>

lemma logical_or_not_NaN: "d \<noteq> NaN \<Longrightarrow> logical_or a d \<noteq> NaN"
  by (simp add: logical_or_def)

lemma page_parseSearchParams:
  "PageLimit.page (parseSearchParams toNumber q) =
     Math_max (logical_or (Number toNumber (q ''page'')) (Fin 1)) (Fin 1)"
  by (simp add: parseSearchParams_def DEFAULT_PAGE_def)

lemma limit_parseSearchParams:
  "PageLimit.limit (parseSearchParams toNumber q) =
     Math_min (Math_max (logical_or (Number toNumber (q ''limit'')) (Fin 10)) (Fin 1)) (Fin 100)"
  by (simp add: parseSearchParams_def DEFAULT_LIMIT_def MAX_LIMIT_def)

lemmas StringToNumber_evaluation =
  StringToNumber_def trim_def isStrWhiteSpaceChar_def StrNumericLiteral_def
  StrDecimalLiteral_def StrUnsignedDecimalLiteral_def Digits_def digit_of_def
  SignedInteger_def Let_def negate_def round_double_numeral

lemma StringToNumber_abc: "StringToNumber ''abc'' = NaN"
  by (simp add: StringToNumber_evaluation)

lemma StringToNumber_minus_5: "StringToNumber ''-5'' = Fin (- 5)"
  by (simp add: StringToNumber_evaluation)

lemma StringToNumber_7: "StringToNumber ''7'' = Fin 7"
  by (simp add: StringToNumber_evaluation)

lemma parseSearchParams_example:
  "parseSearchParams StringToNumber [''page'' \<mapsto> ''abc'', ''limit'' \<mapsto> ''-5''] =
     \<lparr> PageLimit.page = Fin 1, PageLimit.limit = Fin 1 \<rparr>"
  by (simp add: parseSearchParams_def Number_def StringToNumber_abc StringToNumber_minus_5
      logical_or_def Math_max_def Math_min_def DEFAULT_PAGE_def DEFAULT_LIMIT_def MAX_LIMIT_def)

text \<open>
  C4: for every query and whatever the conversion of strings to numbers is,
  \<open>parseSearchParams\<close> takes the default (page 1, limit 10) when the entry is absent, not
  numeric (\<open>NaN\<close>) or zero, and the converted number otherwise; it then clamps the page to
  at least 1 and the limit to \<open>[1, 100]\<close>. It is a total function: it never fails. In
  particular \<open>parseSearchParams({page: "abc", limit: "-5"}) = {page: 1, limit: 1}\<close>.
\<close>

theorem parseSearchParams_defaults_and_clamps:
  "(q ''page'' = None \<or> Number toNumber (q ''page'') = NaN \<or> Number toNumber (q ''page'') = Fin 0
      \<longrightarrow> PageLimit.page (parseSearchParams toNumber q) = Fin 1)
   \<and> (Number toNumber (q ''page'') \<noteq> NaN \<and> Number toNumber (q ''page'') \<noteq> Fin 0
      \<longrightarrow> PageLimit.page (parseSearchParams toNumber q)
            = Math_max (Number toNumber (q ''page'')) (Fin 1))
   \<and> (q ''limit'' = None \<or> Number toNumber (q ''limit'') = NaN
        \<or> Number toNumber (q ''limit'') = Fin 0
      \<longrightarrow> PageLimit.limit (parseSearchParams toNumber q) = Fin 10)
   \<and> (Number toNumber (q ''limit'') \<noteq> NaN \<and> Number toNumber (q ''limit'') \<noteq> Fin 0
      \<longrightarrow> PageLimit.limit (parseSearchParams toNumber q)
            = Math_min (Math_max (Number toNumber (q ''limit'')) (Fin 1)) (Fin 100))
   \<and> num_le (Fin 1) (PageLimit.page (parseSearchParams toNumber q))
   \<and> num_le (Fin 1) (PageLimit.limit (parseSearchParams toNumber q))
   \<and> num_le (PageLimit.limit (parseSearchParams toNumber q)) (Fin 100)
   \<and> parseSearchParams StringToNumber [''page'' \<mapsto> ''abc'', ''limit'' \<mapsto> ''-5'']
       = \<lparr> PageLimit.page = Fin 1, PageLimit.limit = Fin 1 \<rparr>"
proof -
  let ?r = "parseSearchParams toNumber q"
  let ?p = "Number toNumber (q ''page'')"
  let ?l = "Number toNumber (q ''limit'')"
  have absent: "Number toNumber None = Fin 0"
    by (simp add: Number_def)
  have p_default: "q ''page'' = None \<or> ?p = NaN \<or> ?p = Fin 0 \<longrightarrow> PageLimit.page ?r = Fin 1"
    using absent by (auto simp add: page_parseSearchParams logical_or_def Math_max_def)
  have p_given: "?p \<noteq> NaN \<and> ?p \<noteq> Fin 0 \<longrightarrow> PageLimit.page ?r = Math_max ?p (Fin 1)"
    by (simp add: page_parseSearchParams logical_or_def)
  have l_default: "q ''limit'' = None \<or> ?l = NaN \<or> ?l = Fin 0 \<longrightarrow> PageLimit.limit ?r = Fin 10"
    using absent by (auto simp add: limit_parseSearchParams logical_or_def Math_max_def Math_min_def)
  have l_given: "?l \<noteq> NaN \<and> ?l \<noteq> Fin 0
      \<longrightarrow> PageLimit.limit ?r = Math_min (Math_max ?l (Fin 1)) (Fin 100)"
    by (simp add: limit_parseSearchParams logical_or_def)
  have p_range: "num_le (Fin 1) (PageLimit.page ?r)"
    unfolding page_parseSearchParams
    by (rule Math_max_lower) (simp_all add: logical_or_not_NaN)
  have "num_le (Fin 1) (Math_max (logical_or ?l (Fin 10)) (Fin 1))"
    by (rule Math_max_lower) (simp_all add: logical_or_not_NaN)
  moreover have "num_le (Fin 1) (Fin 100)"
    by (simp add: num_le_def)
  ultimately have l_range: "num_le (Fin 1) (PageLimit.limit ?r) \<and> num_le (PageLimit.limit ?r) (Fin 100)"
    unfolding limit_parseSearchParams by (rule Math_min_range)
  from p_default p_given l_default l_given p_range l_range parseSearchParams_example
  show ?thesis by blast
qed

theorem parseSearchParams_defaults_and_clamps_witness:
  "Number StringToNumber ([''page'' \<mapsto> ''abc'', ''limit'' \<mapsto> ''-5''] ''page'') = NaN
   \<and> PageLimit.page (parseSearchParams StringToNumber [''page'' \<mapsto> ''abc'', ''limit'' \<mapsto> ''-5''])
       = Fin 1
   \<and> Number StringToNumber ([''page'' \<mapsto> ''abc'', ''limit'' \<mapsto> ''-5''] ''limit'') = Fin (- 5)
   \<and> PageLimit.limit (parseSearchParams StringToNumber [''page'' \<mapsto> ''abc'', ''limit'' \<mapsto> ''-5''])
       = Fin 1
   \<and> Number StringToNumber ([''page'' \<mapsto> ''7''] ''page'') = Fin 7
   \<and> PageLimit.page (parseSearchParams StringToNumber [''page'' \<mapsto> ''7'']) = Fin 7
   \<and> [''page'' \<mapsto> ''7''] ''limit'' = None
   \<and> PageLimit.limit (parseSearchParams StringToNumber [''page'' \<mapsto> ''7'']) = Fin 10"
proof -
  let ?q = "[''page'' \<mapsto> ''abc'', ''limit'' \<mapsto> ''-5'']"
  let ?q' = "[''page'' \<mapsto> ''7'']"
  have p: "Number StringToNumber (?q ''page'') = NaN"
    by (simp add: Number_def StringToNumber_abc)
  have l: "Number StringToNumber (?q ''limit'') = Fin (- 5)"
    by (simp add: Number_def StringToNumber_minus_5)
  have clamp: "Math_min (Math_max (Fin (- 5)) (Fin 1)) (Fin 100) = Fin 1"
    by (simp add: Math_max_def Math_min_def)
  have p': "Number StringToNumber (?q' ''page'') = Fin 7"
    by (simp add: Number_def StringToNumber_7)
  have l': "?q' ''limit'' = None"
    by simp
  have keep: "Math_max (Fin 7) (Fin 1) = Fin 7"
    by (simp add: Math_max_def)
  from p l clamp p' l' keep
    parseSearchParams_defaults_and_clamps [of ?q StringToNumber]
    parseSearchParams_defaults_and_clamps [of ?q' StringToNumber]
  show ?thesis by simp
qed

section \<open>Properties of \<open>generateMetaTags\<close>\<close>

lemma Number_toString_1: "Number_toString toDigits (Fin 1) = ''1''"
  by (simp add: Number_toString_def digits_of_nat.simps)

lemma Number_toString_3: "Number_toString toDigits (Fin 3) = ''3''"
  by (simp add: Number_toString_def digits_of_nat.simps)

lemma exact_second_of_five:
  "exact_totalPages (Some 10) 45 = 5" "exact_currentPage (Some 2) (Some 10) 45 = 2"
  by (simp_all add: exact_currentPage_def exact_totalPages_def clamped_limit_def nullish_def
      ceiling_divide_rat_numeral)

text \<open>
  C7: for every base URL and every pagination result, \<open>generateMetaTags\<close> returns a
  \<open>prev\<close> entry with the URL \<open>baseUrl + "?page=" + previousPage\<close> if and only if
  \<open>hasPreviousPage\<close> is true, then a \<open>next\<close> entry with the URL
  \<open>baseUrl + "?page=" + nextPage\<close> if and only if \<open>hasNextPage\<close> is true, and nothing
  else; so \<open>prev\<close> comes before \<open>next\<close> when both are there. This holds whatever the
  digits are that the language prints for a number that is not an integer.
\<close>

theorem generateMetaTags_entries:
  "generateMetaTags toDigits baseUrl pagination =
     (if hasPreviousPage pagination
      then [\<lparr> property = ''prev'',
               content = baseUrl @ ''?page=''
                 @ template_value toDigits (previousPage pagination) \<rparr>]
      else [])
     @ (if hasNextPage pagination
        then [\<lparr> property = ''next'',
                 content = baseUrl @ ''?page=''
                   @ template_value toDigits (nextPage pagination) \<rparr>]
        else [])
   \<and> generateMetaTags toDigits ''https://x/y'' (calculate (int_params (Some 2) (Some 10) 45))
       = [\<lparr> property = ''prev'', content = ''https://x/y?page=1'' \<rparr>,
          \<lparr> property = ''next'', content = ''https://x/y?page=3'' \<rparr>]"
proof
  show "generateMetaTags toDigits baseUrl pagination =
     (if hasPreviousPage pagination
      then [\<lparr> property = ''prev'',
               content = baseUrl @ ''?page=''
                 @ template_value toDigits (previousPage pagination) \<rparr>]
      else [])
     @ (if hasNextPage pagination
        then [\<lparr> property = ''next'',
                 content = baseUrl @ ''?page=''
                   @ template_value toDigits (nextPage pagination) \<rparr>]
        else [])"
    by (simp add: generateMetaTags_def)
next
  let ?r = "calculate (int_params (Some 2) (Some 10) 45)"
  have small: "(45::int) < 2 ^ 53" by simp
  have flags: "hasNextPage ?r" "hasPreviousPage ?r"
    by (simp_all add: hasNextPage_int [OF small] hasPreviousPage_int [OF small]
        exact_second_of_five)
  have "num_add (currentPage ?r) (Fin 1) = int_num 3"
    using next_int [OF small, of "Some 2" "Some 10"] by (simp add: exact_second_of_five)
  moreover have "num_sub (currentPage ?r) (Fin 1) = int_num 1"
    using previous_int [OF small, of "Some 2" "Some 10"] by (simp add: exact_second_of_five)
  ultimately have adj: "nextPage ?r = Some (Fin 3)" "previousPage ?r = Some (Fin 1)"
    using flags by (simp_all add: nextPage_calculate previousPage_calculate int_num_def)
  show "generateMetaTags toDigits ''https://x/y'' ?r
       = [\<lparr> property = ''prev'', content = ''https://x/y?page=1'' \<rparr>,
          \<lparr> property = ''next'', content = ''https://x/y?page=3'' \<rparr>]"
    by (simp add: generateMetaTags_def flags adj template_value_def
        Number_toString_1 Number_toString_3)
qed

end
